theory Spec2Isabelle
  imports Main "HOL-Library.Product_Lexorder"
begin

section \<open>Python strings\<close>

text \<open>
  A Python \<open>str\<close> is a sequence of Unicode code points. The changelog header holds
  characters beyond ASCII and \<open>str.strip\<close> removes Unicode white space, so a character
  is modelled as its code point and a string as a list of code points.
\<close>

type_synonym pychar = nat
type_synonym pystr = "pychar list"

text \<open>An ASCII literal, read as a list of code points.\<close>

definition ustr :: "string \<Rightarrow> pystr" where
  "ustr s = map of_char s"

text \<open>\<open>s.startswith(p)\<close> and \<open>s.endswith(p)\<close>.\<close>

fun startswith :: "pystr \<Rightarrow> pystr \<Rightarrow> bool" where
  "startswith s [] = True"
| "startswith [] (p # ps) = False"
| "startswith (c # cs) (p # ps) = (c = p \<and> startswith cs ps)"

definition endswith :: "pystr \<Rightarrow> pystr \<Rightarrow> bool" where
  "endswith s p = startswith (rev s) (rev p)"

text \<open>
  \<open>s.find(sub)\<close>: the lowest index at which \<open>sub\<close> occurs in \<open>s\<close>, and \<open>-1\<close> when it
  does not occur.
\<close>

fun find_str :: "pystr \<Rightarrow> pystr \<Rightarrow> int" where
  "find_str [] sub = (if sub = [] then 0 else - 1)"
| "find_str (c # cs) sub =
     (if startswith (c # cs) sub then 0
      else (let r = find_str cs sub in if r < 0 then - 1 else r + 1))"

text \<open>
  \<open>str.isspace\<close> on one character: the code points that \<open>str.strip()\<close> removes
  (CPython's \<open>_PyUnicode_IsWhitespace\<close>).
\<close>

definition isspace :: "pychar \<Rightarrow> bool" where
  "isspace c \<longleftrightarrow>
     (9 \<le> c \<and> c \<le> 13) \<or> (28 \<le> c \<and> c \<le> 32) \<or> c = 133 \<or> c = 160 \<or> c = 5760 \<or>
     (8192 \<le> c \<and> c \<le> 8202) \<or> c = 8232 \<or> c = 8233 \<or> c = 8239 \<or> c = 8287 \<or> c = 12288"

text \<open>\<open>s.strip()\<close>: leading and trailing white space removed.\<close>

definition strip :: "pystr \<Rightarrow> pystr" where
  "strip s = rev (dropWhile isspace (rev (dropWhile isspace s)))"

text \<open>\<open>sep.join(xs)\<close>.\<close>

fun join_str :: "pystr \<Rightarrow> pystr list \<Rightarrow> pystr" where
  "join_str sep [] = []"
| "join_str sep [x] = x"
| "join_str sep (x # y # ys) = x @ sep @ join_str sep (y # ys)"

text \<open>
  \<open>s.split(sep)\<close> raises \<open>ValueError\<close> on an empty separator. Otherwise it cuts \<open>s\<close> at
  the leftmost occurrence of \<open>sep\<close> and goes on behind it, so the occurrences it cuts
  at do not overlap; a string without the separator is one chunk.
\<close>

datatype error = ValueError

function split_chunks :: "pystr \<Rightarrow> pystr \<Rightarrow> pystr list" where
  "split_chunks s sep =
     (let i = find_str s sep in
      if i < 0 \<or> sep = [] then [s]
      else take (nat i) s # split_chunks (drop (nat i + length sep) s) sep)"
  by pat_completeness auto
termination
proof (relation "measure (\<lambda>(s, sep). length s)")
  show "wf (measure (\<lambda>(s, sep). length s))" by simp
next
  fix s sep :: pystr and i :: int
  assume i: "i = find_str s sep" and go: "\<not> (i < 0 \<or> sep = [])"
  from go i have "s \<noteq> []" by (cases s) auto
  moreover from go have "0 < length sep" by simp
  ultimately show "((drop (nat i + length sep) s, sep), (s, sep)) \<in> measure (\<lambda>(s, sep). length s)"
    by simp
qed

declare split_chunks.simps [simp del]

definition split_str :: "pystr \<Rightarrow> pystr \<Rightarrow> error + pystr list" where
  "split_str s sep = (if sep = [] then Inl ValueError else Inr (split_chunks s sep))"

section \<open>Changelog helpers\<close>

definition CHANGELOG_HEADER :: pystr where
  "CHANGELOG_HEADER =
     ustr ''###### tags: `ai` `gemini` `copilot`\<newline>\<newline>'' @
     ustr ''# Gemini CLI & GitHub Copilot CLI '' @ [25351, 20196, 26356, 26032] @
     ustr '' Changelog\<newline>\<newline>''"

definition ENTRY_SEPARATOR :: pystr where
  "ENTRY_SEPARATOR = ustr ''\<newline>---\<newline>\<newline>''"

text \<open>The literals of \<open>parse_changelog\<close>.\<close>

definition TAGS_PREFIX :: pystr where
  "TAGS_PREFIX = ustr ''###### tags''"

definition ENTRY_MARKER :: pystr where
  "ENTRY_MARKER = ustr ''\<newline>## ''"

definition ENTRY_START :: pystr where
  "ENTRY_START = ustr ''## ''"

text \<open>The entry separator without its last newline.\<close>

definition SEPARATOR_HEAD :: pystr where
  "SEPARATOR_HEAD = ustr ''\<newline>---\<newline>''"

text \<open>
  The last three lines of \<open>parse_changelog\<close>, where its two branches meet: the body is
  split on the separator and a chunk is kept when \<open>e.strip().startswith("## ")\<close>.
\<close>

definition entries_from :: "pystr \<Rightarrow> pystr \<Rightarrow> error + (pystr \<times> pystr list)" where
  "entries_from header body =
     (case split_str body ENTRY_SEPARATOR of
        Inl err \<Rightarrow> Inl err
      | Inr raw_entries \<Rightarrow>
          Inr (header, filter (\<lambda>e. startswith (strip e) ENTRY_START) raw_entries))"

definition parse_changelog :: "pystr \<Rightarrow> error + (pystr \<times> pystr list)" where
  "parse_changelog content =
     (if startswith content TAGS_PREFIX then
        (let idx = find_str content ENTRY_MARKER in
         if idx = - 1 then Inr (content, [])
         else entries_from (take (nat (idx + 1)) content) (drop (nat (idx + 1)) content))
      else entries_from CHANGELOG_HEADER content)"


definition build_changelog :: "pystr \<Rightarrow> pystr list \<Rightarrow> pystr" where
  "build_changelog header entries =
     (if entries = [] then header
      else header @ join_str ENTRY_SEPARATOR entries @ ENTRY_SEPARATOR)"

text \<open>
  The update step of \<open>main\<close>: the new entry is put in front of the parsed entries and,
  when the configured maximum is positive, the list is cut to that many elements.
\<close>

definition prepend_and_trim :: "int \<Rightarrow> pystr \<Rightarrow> pystr list \<Rightarrow> pystr list" where
  "prepend_and_trim max_entries new_entry entries =
     (let entries = [new_entry] @ entries in
      if max_entries > 0 then take (nat max_entries) entries else entries)"

section \<open>Diff helper\<close>

text \<open>
  \<open>build_diff_markdown\<close> calls \<open>str.splitlines(keepends=True)\<close> and
  \<open>difflib.unified_diff\<close> of the Python standard library. Both are embedded here, the
  second from CPython's \<open>Lib/difflib.py\<close>: \<open>unified_diff\<close>, \<open>_format_range_unified\<close> and
  the methods \<open>__chain_b\<close>, \<open>find_longest_match\<close>, \<open>get_matching_blocks\<close>, \<open>get_opcodes\<close>
  and \<open>get_grouped_opcodes\<close> of \<open>SequenceMatcher\<close>, as \<open>SequenceMatcher(None, a, b)\<close>
  runs them: no junk predicate, and the automatic junk heuristic switched on.
\<close>

subsection \<open>Lines\<close>

text \<open>The characters at which \<open>str.splitlines\<close> ends a line.\<close>

definition is_linebreak :: "pychar \<Rightarrow> bool" where
  "is_linebreak c \<longleftrightarrow>
     (10 \<le> c \<and> c \<le> 13) \<or> (28 \<le> c \<and> c \<le> 30) \<or> c = 133 \<or> c = 8232 \<or> c = 8233"

text \<open>
  \<open>s.splitlines(keepends=True)\<close>: every line keeps its terminator, a carriage return
  followed by a line feed is one terminator, and text behind the last terminator is a
  line of its own.
\<close>

fun splitlines :: "pystr \<Rightarrow> pystr list" where
  "splitlines [] = []"
| "splitlines [c] = [[c]]"
| "splitlines (c # d # cs) =
     (if c = 13 \<and> d = 10 then [c, d] # splitlines cs
      else if is_linebreak c then [c] # splitlines (d # cs)
      else (case splitlines (d # cs) of
              [] \<Rightarrow> [[c]]
            | line # lines \<Rightarrow> (c # line) # lines))"

subsection \<open>The sequence matcher\<close>

text \<open>
  A matching block \<open>(i, j, k)\<close> stands for \<open>a[i:i+k] == b[j:j+k]\<close>; a region
  \<open>(alo, ahi, blo, bhi)\<close> for the slices \<open>a[alo:ahi]\<close> and \<open>b[blo:bhi]\<close> that are still to be
  compared; an opcode is \<open>(tag, i1, i2, j1, j2)\<close>.
\<close>

type_synonym match = "nat \<times> nat \<times> nat"
type_synonym region = "nat \<times> nat \<times> nat \<times> nat"

datatype tag = Replace | Delete | Insert | Equal

type_synonym opcode = "tag \<times> nat \<times> nat \<times> nat \<times> nat"

text \<open>
  \<open>__chain_b\<close>: the dictionary \<open>b2j\<close> maps every element of \<open>b\<close> to the list of the
  indices at which it stands. There is no junk (\<open>isjunk\<close> is \<open>None\<close>). When \<open>b\<close> has 200
  elements or more, the elements that stand at more than \<open>n // 100 + 1\<close> indices are
  popular and are deleted from the dictionary.
\<close>

definition chain_b :: "'a list \<Rightarrow> ('a \<rightharpoonup> nat list)" where
  "chain_b b =
     (let b2j = fold (\<lambda>(i, elt) b2j.
                        b2j(elt \<mapsto> (case b2j elt of None \<Rightarrow> [] | Some indices \<Rightarrow> indices) @ [i]))
                  (enumerate 0 b) Map.empty;
          n = length b
      in if n \<ge> 200 then
           (let ntest = n div 100 + 1
            in (\<lambda>elt. case b2j elt of
                         None \<Rightarrow> None
                       | Some idxs \<Rightarrow> if length idxs > ntest then None else Some idxs))
         else b2j)"

text \<open>
  The loop \<open>for j in b2j.get(a[i], nothing)\<close> of \<open>find_longest_match\<close>, with its
  \<open>continue\<close> and its \<open>break\<close>. The state is \<open>newj2len\<close> and the best block so far.
  \<open>j2len.get(j - 1, 0)\<close> is \<open>0\<close> at \<open>j = 0\<close>, where the key \<open>-1\<close> is never stored. The
  block starts \<open>i - k + 1\<close> and \<open>j - k + 1\<close> are written \<open>i + 1 - k\<close> and \<open>j + 1 - k\<close>: \<open>k\<close>
  never exceeds \<open>i + 1\<close> or \<open>j + 1\<close> (lemma \<open>inner_step\<close> below).
\<close>

fun inner_loop ::
  "nat \<Rightarrow> nat \<Rightarrow> nat \<Rightarrow> (nat \<rightharpoonup> nat) \<Rightarrow> nat list \<Rightarrow> (nat \<rightharpoonup> nat) \<times> match \<Rightarrow> (nat \<rightharpoonup> nat) \<times> match"
where
  "inner_loop i blo bhi j2len [] st = st"
| "inner_loop i blo bhi j2len (j # js) (newj2len, (besti, bestj, bestsize)) =
     (if j < blo then inner_loop i blo bhi j2len js (newj2len, (besti, bestj, bestsize))
      else if j \<ge> bhi then (newj2len, (besti, bestj, bestsize))
      else
        (let k = (if j = 0 then 0 else (case j2len (j - 1) of None \<Rightarrow> 0 | Some v \<Rightarrow> v)) + 1
         in inner_loop i blo bhi j2len js
              (newj2len(j \<mapsto> k),
               if k > bestsize then (i + 1 - k, j + 1 - k, k) else (besti, bestj, bestsize))))"

text \<open>The loop \<open>for i in range(alo, ahi)\<close>; the state is \<open>j2len\<close> and the best block.\<close>

fun outer_loop ::
  "'a list \<Rightarrow> ('a \<rightharpoonup> nat list) \<Rightarrow> nat \<Rightarrow> nat \<Rightarrow> nat list \<Rightarrow> (nat \<rightharpoonup> nat) \<times> match \<Rightarrow> (nat \<rightharpoonup> nat) \<times> match"
where
  "outer_loop a b2j blo bhi [] st = st"
| "outer_loop a b2j blo bhi (i # is) (j2len, best) =
     outer_loop a b2j blo bhi is
       (inner_loop i blo bhi j2len (case b2j (a ! i) of None \<Rightarrow> [] | Some js \<Rightarrow> js)
          (Map.empty, best))"

text \<open>
  The four \<open>while\<close> loops that extend the best block to the left and to the right. The
  test on \<open>isbjunk\<close> is the parameter \<open>ok\<close>.
\<close>

function extend_left ::
  "'a list \<Rightarrow> 'a list \<Rightarrow> nat \<Rightarrow> nat \<Rightarrow> ('a \<Rightarrow> bool) \<Rightarrow> match \<Rightarrow> match"
where
  "extend_left a b alo blo ok (besti, bestj, bestsize) =
     (if besti > alo \<and> bestj > blo \<and> ok (b ! (bestj - 1)) \<and> a ! (besti - 1) = b ! (bestj - 1)
      then extend_left a b alo blo ok (besti - 1, bestj - 1, bestsize + 1)
      else (besti, bestj, bestsize))"
  by pat_completeness auto
termination
  by (relation "measure (\<lambda>(a, b, alo, blo, ok, besti, bestj, bestsize). besti)") auto

function extend_right ::
  "'a list \<Rightarrow> 'a list \<Rightarrow> nat \<Rightarrow> nat \<Rightarrow> ('a \<Rightarrow> bool) \<Rightarrow> match \<Rightarrow> match"
where
  "extend_right a b ahi bhi ok (besti, bestj, bestsize) =
     (if besti + bestsize < ahi \<and> bestj + bestsize < bhi \<and> ok (b ! (bestj + bestsize)) \<and>
         a ! (besti + bestsize) = b ! (bestj + bestsize)
      then extend_right a b ahi bhi ok (besti, bestj, bestsize + 1)
      else (besti, bestj, bestsize))"
  by pat_completeness auto
termination
  by (relation "measure (\<lambda>(a, b, ahi, bhi, ok, besti, bestj, bestsize). ahi - (besti + bestsize))")
    auto

declare extend_left.simps [simp del] extend_right.simps [simp del]

text \<open>
  \<open>find_longest_match(alo, ahi, blo, bhi)\<close>. The set \<open>bjunk\<close> is empty, so \<open>isbjunk\<close> is
  false everywhere. The callers keep \<open>ahi\<close> and \<open>bhi\<close> within the lengths of \<open>a\<close> and
  \<open>b\<close> (lemma \<open>match_queue_valid\<close> below), so every index read is in range.
\<close>

definition find_longest_match ::
  "'a list \<Rightarrow> 'a list \<Rightarrow> ('a \<rightharpoonup> nat list) \<Rightarrow> nat \<Rightarrow> nat \<Rightarrow> nat \<Rightarrow> nat \<Rightarrow> match"
where
  "find_longest_match a b b2j alo ahi blo bhi =
     (let isbjunk = (\<lambda>x. False);
          best = snd (outer_loop a b2j blo bhi [alo..<ahi] (Map.empty, (alo, blo, 0)));
          best = extend_left a b alo blo (\<lambda>x. \<not> isbjunk x) best;
          best = extend_right a b ahi bhi (\<lambda>x. \<not> isbjunk x) best;
          best = extend_left a b alo blo isbjunk best;
          best = extend_right a b ahi bhi isbjunk best
      in best)"

text \<open>
  The \<open>while queue\<close> loop of \<open>get_matching_blocks\<close>. The queue is held with its last
  element first: \<open>queue.pop()\<close> takes the head, \<open>queue.append\<close> puts in front. It
  terminates because every region it appends is smaller than the one it popped; the
  proof follows the invariant of \<open>find_longest_match\<close> below.
\<close>

function match_queue ::
  "'a list \<Rightarrow> 'a list \<Rightarrow> ('a \<rightharpoonup> nat list) \<Rightarrow> region list \<Rightarrow> match list \<Rightarrow> match list"
where
  "match_queue a b b2j [] matching_blocks = matching_blocks"
| "match_queue a b b2j ((alo, ahi, blo, bhi) # queue) matching_blocks =
     (case find_longest_match a b b2j alo ahi blo bhi of
        (i, j, k) \<Rightarrow>
          if k \<noteq> 0 then
            match_queue a b b2j
              ((if i + k < ahi \<and> j + k < bhi then [(i + k, ahi, j + k, bhi)] else []) @
               (if alo < i \<and> blo < j then [(alo, i, blo, j)] else []) @ queue)
              (matching_blocks @ [(i, j, k)])
          else match_queue a b b2j queue matching_blocks)"
  by pat_completeness auto

text \<open>
  The loop of \<open>get_matching_blocks\<close> that collapses adjacent blocks. The state is the
  block \<open>(i1, j1, k1)\<close> to compare against and the list \<open>non_adjacent\<close>.
\<close>

fun collapse :: "match \<Rightarrow> match list \<Rightarrow> match list \<Rightarrow> match \<times> match list" where
  "collapse (i1, j1, k1) non_adjacent [] = ((i1, j1, k1), non_adjacent)"
| "collapse (i1, j1, k1) non_adjacent ((i2, j2, k2) # matching_blocks) =
     (if i1 + k1 = i2 \<and> j1 + k1 = j2 then collapse (i1, j1, k1 + k2) non_adjacent matching_blocks
      else collapse (i2, j2, k2)
             (if k1 \<noteq> 0 then non_adjacent @ [(i1, j1, k1)] else non_adjacent) matching_blocks)"

text \<open>
  \<open>get_matching_blocks\<close>. \<open>matching_blocks.sort()\<close> orders the triples
  lexicographically, which is the order of nested pairs.
\<close>

definition get_matching_blocks :: "'a list \<Rightarrow> 'a list \<Rightarrow> match list" where
  "get_matching_blocks a b =
     (let la = length a; lb = length b;
          matching_blocks = match_queue a b (chain_b b) [(0, la, 0, lb)] [];
          matching_blocks = sort matching_blocks
      in case collapse (0, 0, 0) [] matching_blocks of
           ((i1, j1, k1), non_adjacent) \<Rightarrow>
             (if k1 \<noteq> 0 then non_adjacent @ [(i1, j1, k1)] else non_adjacent) @ [(la, lb, 0)])"

text \<open>
  The loop of \<open>get_opcodes\<close> from the position \<open>(i, j)\<close>; the opcodes come out in the
  order in which the loop appends them to \<open>answer\<close>.
\<close>

fun opcodes_from :: "nat \<Rightarrow> nat \<Rightarrow> match list \<Rightarrow> opcode list" where
  "opcodes_from i j [] = []"
| "opcodes_from i j ((ai, bj, sz) # blocks) =
     (if i < ai \<and> j < bj then [(Replace, i, ai, j, bj)]
      else if i < ai then [(Delete, i, ai, j, bj)]
      else if j < bj then [(Insert, i, ai, j, bj)]
      else []) @
     (if sz \<noteq> 0 then [(Equal, ai, ai + sz, bj, bj + sz)] else []) @
     opcodes_from (ai + sz) (bj + sz) blocks"

definition get_opcodes :: "'a list \<Rightarrow> 'a list \<Rightarrow> opcode list" where
  "get_opcodes a b = opcodes_from 0 0 (get_matching_blocks a b)"

text \<open>
  \<open>get_grouped_opcodes(n)\<close>: the fix of the first and of the last opcode, then the loop
  that yields the groups. \<open>i2 - n\<close> below zero gives \<open>max(i1, i2 - n) = i1\<close> in Python,
  and so does the truncated subtraction here.
\<close>

definition fix_first :: "nat \<Rightarrow> opcode list \<Rightarrow> opcode list" where
  "fix_first n codes =
     (case hd codes of
        (tag, i1, i2, j1, j2) \<Rightarrow>
          if tag = Equal then (tag, max i1 (i2 - n), i2, max j1 (j2 - n), j2) # tl codes
          else codes)"

definition fix_last :: "nat \<Rightarrow> opcode list \<Rightarrow> opcode list" where
  "fix_last n codes =
     (case last codes of
        (tag, i1, i2, j1, j2) \<Rightarrow>
          if tag = Equal then butlast codes @ [(tag, i1, min i2 (i1 + n), j1, min j2 (j1 + n))]
          else codes)"

fun group_loop :: "nat \<Rightarrow> opcode list \<Rightarrow> opcode list \<Rightarrow> opcode list list" where
  "group_loop n [] grp =
     (if grp \<noteq> [] \<and> \<not> (length grp = 1 \<and> fst (hd grp) = Equal) then [grp] else [])"
| "group_loop n ((tag, i1, i2, j1, j2) # codes) grp =
     (if tag = Equal \<and> i2 - i1 > n + n then
        (grp @ [(tag, i1, min i2 (i1 + n), j1, min j2 (j1 + n))]) #
        group_loop n codes [(tag, max i1 (i2 - n), i2, max j1 (j2 - n), j2)]
      else group_loop n codes (grp @ [(tag, i1, i2, j1, j2)]))"

definition get_grouped_opcodes :: "'a list \<Rightarrow> 'a list \<Rightarrow> nat \<Rightarrow> opcode list list" where
  "get_grouped_opcodes a b n =
     (let codes = get_opcodes a b;
          codes = (if codes = [] then [(Equal, 0, 1, 0, 1)] else codes);
          codes = fix_first n codes;
          codes = fix_last n codes
      in group_loop n codes [])"

subsection \<open>The unified diff\<close>

text \<open>An integer in decimal, as \<open>'{}'.format\<close> writes it.\<close>

function decimal :: "nat \<Rightarrow> pystr" where
  "decimal n = (if n < 10 then [48 + n] else decimal (n div 10) @ [48 + n mod 10])"
  by pat_completeness auto
termination
  by (relation "measure (\<lambda>n. n)") auto

declare decimal.simps [simp del]

definition str_int :: "int \<Rightarrow> pystr" where
  "str_int i = (if i < 0 then 45 # decimal (nat (- i)) else decimal (nat i))"

definition format_range_unified :: "nat \<Rightarrow> nat \<Rightarrow> pystr" where
  "format_range_unified start stop =
     (let beginning = int start + 1;
          len = int stop - int start
      in if len = 1 then str_int beginning
         else (let beginning = (if len = 0 then beginning - 1 else beginning)
               in str_int beginning @ ustr '','' @ str_int len))"

text \<open>The slice \<open>xs[i:j]\<close> for indices that are not negative.\<close>

definition slice :: "'a list \<Rightarrow> nat \<Rightarrow> nat \<Rightarrow> 'a list" where
  "slice xs i j = take (j - i) (drop i xs)"

text \<open>The lines that \<open>unified_diff\<close> yields for one opcode of a group.\<close>

definition group_lines :: "pystr list \<Rightarrow> pystr list \<Rightarrow> opcode \<Rightarrow> pystr list" where
  "group_lines a b opc =
     (case opc of
        (tag, i1, i2, j1, j2) \<Rightarrow>
          if tag = Equal then map (\<lambda>line. ustr '' '' @ line) (slice a i1 i2)
          else
            (if tag = Replace \<or> tag = Delete
             then map (\<lambda>line. ustr ''-'' @ line) (slice a i1 i2) else []) @
            (if tag = Replace \<or> tag = Insert
             then map (\<lambda>line. ustr ''+'' @ line) (slice b j1 j2) else []))"

text \<open>
  \<open>unified_diff(a, b, fromfile, tofile, n, lineterm)\<close> with empty file dates: the two
  header lines in front of the first group, then for each group its range line and its
  lines. A group is never empty (lemma \<open>group_loop_nonempty\<close> below), so \<open>group[0]\<close> and
  \<open>group[-1]\<close> exist. \<open>_check_types\<close> raises only for lines that are not strings.
\<close>

definition unified_diff ::
  "pystr list \<Rightarrow> pystr list \<Rightarrow> pystr \<Rightarrow> pystr \<Rightarrow> nat \<Rightarrow> pystr \<Rightarrow> pystr list" where
  "unified_diff a b fromfile tofile n lineterm =
     (let groups = get_grouped_opcodes a b n
      in (if groups = [] then []
          else [ustr ''--- '' @ fromfile @ lineterm, ustr ''+++ '' @ tofile @ lineterm]) @
         concat (map (\<lambda>grp.
           (case (hd grp, last grp) of
              ((_, first1, _, first3, _), (_, _, last2, _, last4)) \<Rightarrow>
                (let file1_range = format_range_unified first1 last2;
                     file2_range = format_range_unified first3 last4
                 in (ustr ''@@ -'' @ file1_range @ ustr '' +'' @ file2_range @ ustr '' @@'' @
                     lineterm) #
                    concat (map (group_lines a b) grp)))) groups))"

text \<open>The two file labels of \<open>build_diff_markdown\<close>, as code points.\<close>

definition FROMFILE :: pystr where
  "FROMFILE = [19978, 19968, 29256]"

definition TOFILE :: pystr where
  "TOFILE = [26412, 27425]"

definition build_diff_markdown :: "pystr \<Rightarrow> pystr \<Rightarrow> pystr \<Rightarrow> pystr" where
  "build_diff_markdown old new title =
     (let old_lines = splitlines old;
          new_lines = splitlines new;
          diff = unified_diff old_lines new_lines FROMFILE TOFILE 3 []
      in if diff = [] then []
         else (let body = concat diff
               in ustr ''### '' @ title @ ustr ''\<newline>\<newline>```diff\<newline>'' @ body @
                  ustr ''\<newline>```\<newline>''))"

section \<open>Evaluation of the literals\<close>

lemma ENTRY_SEPARATOR_eq: "ENTRY_SEPARATOR = [10, 45, 45, 45, 10, 10]"
  by (simp add: ENTRY_SEPARATOR_def ustr_def)

lemma TAGS_PREFIX_eq: "TAGS_PREFIX = [35, 35, 35, 35, 35, 35, 32, 116, 97, 103, 115]"
  by (simp add: TAGS_PREFIX_def ustr_def)

lemma ENTRY_MARKER_eq: "ENTRY_MARKER = [10, 35, 35, 32]"
  by (simp add: ENTRY_MARKER_def ustr_def)

lemma ENTRY_START_eq: "ENTRY_START = [35, 35, 32]"
  by (simp add: ENTRY_START_def ustr_def)

lemma SEPARATOR_HEAD_eq: "SEPARATOR_HEAD = [10, 45, 45, 45, 10]"
  by (simp add: SEPARATOR_HEAD_def ustr_def)

lemma eval_defs:
  "ENTRY_SEPARATOR = [10, 45, 45, 45, 10, 10]"
  "TAGS_PREFIX = [35, 35, 35, 35, 35, 35, 32, 116, 97, 103, 115]"
  "ENTRY_MARKER = [10, 35, 35, 32]"
  "ENTRY_START = [35, 35, 32]"
  by (rule ENTRY_SEPARATOR_eq TAGS_PREFIX_eq ENTRY_MARKER_eq ENTRY_START_eq)+

lemma header_facts:
  "startswith CHANGELOG_HEADER TAGS_PREFIX"
  "find_str CHANGELOG_HEADER ENTRY_MARKER = - 1"
  "endswith CHANGELOG_HEADER [10]"
  by (simp_all add: CHANGELOG_HEADER_def ustr_def TAGS_PREFIX_eq ENTRY_MARKER_eq endswith_def)

section \<open>Occurrences of a substring\<close>

text \<open>
  \<open>occurs_at sub s i\<close>: the slice of \<open>s\<close> that starts at index \<open>i\<close> and has the length
  of \<open>sub\<close> exists and equals \<open>sub\<close>. It is the yardstick for \<open>find_str\<close>.
\<close>

definition occurs_at :: "pystr \<Rightarrow> pystr \<Rightarrow> nat \<Rightarrow> bool" where
  "occurs_at sub s i \<longleftrightarrow> i + length sub \<le> length s \<and> take (length sub) (drop i s) = sub"

lemma startswith_iff: "startswith s p \<longleftrightarrow> length p \<le> length s \<and> take (length p) s = p"
  by (induction s p rule: startswith.induct) auto

lemma startswith_append: "startswith s p \<Longrightarrow> startswith (s @ t) p"
  by (simp add: startswith_iff)

lemma occurs_at_0: "occurs_at sub s 0 \<longleftrightarrow> startswith s sub"
  by (simp add: startswith_iff occurs_at_def)

lemma occurs_at_Suc: "occurs_at sub (c # cs) (Suc i) \<longleftrightarrow> occurs_at sub cs i"
  by (simp add: occurs_at_def)

lemma occurs_at_Nil: "occurs_at sub [] i \<longleftrightarrow> sub = [] \<and> i = 0"
  by (auto simp: occurs_at_def)

lemma find_str_ge: "- 1 \<le> find_str s sub"
  by (induction s) (auto simp: Let_def)

lemma find_str_none_iff: "find_str s sub = - 1 \<longleftrightarrow> (\<forall>j. \<not> occurs_at sub s j)"
proof (induction s)
  case Nil
  show ?case by (simp add: occurs_at_Nil)
next
  case (Cons c cs)
  have ge: "- 1 \<le> find_str cs sub" by (rule find_str_ge)
  show ?case
  proof (cases "startswith (c # cs) sub")
    case True
    then have "occurs_at sub (c # cs) 0" by (simp add: occurs_at_0)
    with True show ?thesis by auto
  next
    case False
    have "(\<forall>j. \<not> occurs_at sub (c # cs) j) \<longleftrightarrow> (\<forall>j. \<not> occurs_at sub cs j)"
    proof
      assume a: "\<forall>j. \<not> occurs_at sub (c # cs) j"
      show "\<forall>j. \<not> occurs_at sub cs j"
      proof
        fix j
        from a have "\<not> occurs_at sub (c # cs) (Suc j)" by blast
        then show "\<not> occurs_at sub cs j" by (simp add: occurs_at_Suc)
      qed
    next
      assume a: "\<forall>j. \<not> occurs_at sub cs j"
      show "\<forall>j. \<not> occurs_at sub (c # cs) j"
      proof
        fix j
        show "\<not> occurs_at sub (c # cs) j"
        proof (cases j)
          case 0
          with False show ?thesis by (simp add: occurs_at_0)
        next
          case (Suc k)
          with a show ?thesis by (simp add: occurs_at_Suc)
        qed
      qed
    qed
    moreover from False ge have "find_str (c # cs) sub = - 1 \<longleftrightarrow> find_str cs sub = - 1"
      by (auto simp: Let_def)
    ultimately show ?thesis using Cons.IH by simp
  qed
qed

lemma find_str_eq_iff:
  "find_str s sub = int i \<longleftrightarrow> occurs_at sub s i \<and> (\<forall>j<i. \<not> occurs_at sub s j)"
proof (induction s arbitrary: i)
  case Nil
  show ?case by (auto simp: occurs_at_Nil)
next
  case (Cons c cs)
  have ge: "- 1 \<le> find_str cs sub" by (rule find_str_ge)
  show ?case
  proof (cases "startswith (c # cs) sub")
    case True
    then have o: "occurs_at sub (c # cs) 0" by (simp add: occurs_at_0)
    show ?thesis
    proof (cases i)
      case 0
      with True o show ?thesis by simp
    next
      case (Suc k)
      with True o show ?thesis by auto
    qed
  next
    case False
    then have no: "\<not> occurs_at sub (c # cs) 0" by (simp add: occurs_at_0)
    show ?thesis
    proof (cases i)
      case 0
      with False no ge show ?thesis by (auto simp: Let_def)
    next
      case (Suc k)
      have "(\<forall>j<Suc k. \<not> occurs_at sub (c # cs) j) \<longleftrightarrow> (\<forall>j<k. \<not> occurs_at sub cs j)"
      proof
        assume a: "\<forall>j<Suc k. \<not> occurs_at sub (c # cs) j"
        show "\<forall>j<k. \<not> occurs_at sub cs j"
        proof (intro allI impI)
          fix j assume "j < k"
          with a have "\<not> occurs_at sub (c # cs) (Suc j)" by simp
          then show "\<not> occurs_at sub cs j" by (simp add: occurs_at_Suc)
        qed
      next
        assume a: "\<forall>j<k. \<not> occurs_at sub cs j"
        show "\<forall>j<Suc k. \<not> occurs_at sub (c # cs) j"
        proof (intro allI impI)
          fix j assume j: "j < Suc k"
          show "\<not> occurs_at sub (c # cs) j"
          proof (cases j)
            case 0
            with no show ?thesis by simp
          next
            case (Suc m)
            with a j show ?thesis by (simp add: occurs_at_Suc)
          qed
        qed
      qed
      moreover from False ge have "find_str (c # cs) sub = int (Suc k) \<longleftrightarrow> find_str cs sub = int k"
        by (auto simp: Let_def)
      ultimately show ?thesis using Cons.IH [of k] Suc by (simp add: occurs_at_Suc)
    qed
  qed
qed

lemma find_str_cases:
  obtains "find_str s sub = - 1" | i where "find_str s sub = int i"
proof -
  have "- 1 \<le> find_str s sub" by (rule find_str_ge)
  then have "find_str s sub = - 1 \<or> 0 \<le> find_str s sub" by arith
  then show thesis
  proof
    assume "find_str s sub = - 1"
    then show thesis by (rule that(1))
  next
    assume "0 \<le> find_str s sub"
    then obtain i where "find_str s sub = int i" by (rule nonneg_int_cases)
    then show thesis by (rule that(2))
  qed
qed

lemma startswith_iff_append: "startswith s p \<longleftrightarrow> (\<exists>t. s = p @ t)"
  by (induction s p rule: startswith.induct) auto

lemma endswith_iff: "endswith s p \<longleftrightarrow> (\<exists>q. s = q @ p)"
proof -
  have "startswith (rev s) (rev p) \<longleftrightarrow> (\<exists>t. rev s = rev p @ t)"
    by (rule startswith_iff_append)
  also have "\<dots> \<longleftrightarrow> (\<exists>q. s = q @ p)"
    by (metis rev_append rev_rev_ident)
  finally show ?thesis by (simp add: endswith_def)
qed

lemma occurs_at_append_left:
  "i + length sub \<le> length x \<Longrightarrow> occurs_at sub (x @ y) i \<longleftrightarrow> occurs_at sub x i"
  by (simp add: occurs_at_def)

lemma occurs_at_decomp:
  "occurs_at sub s i \<Longrightarrow> s = take i s @ sub @ drop (i + length sub) s"
  by (metis add.commute append_take_drop_id drop_drop occurs_at_def)

lemma find_str_append_left:
  assumes "i + length sub \<le> length x"
  shows "find_str (x @ y) sub = int i \<longleftrightarrow> find_str x sub = int i"
proof -
  have "\<And>j. j < i \<Longrightarrow> occurs_at sub (x @ y) j \<longleftrightarrow> occurs_at sub x j"
    using assms by (intro occurs_at_append_left) simp
  with assms show ?thesis
    by (simp add: find_str_eq_iff occurs_at_append_left)
qed

section \<open>Splitting on a separator\<close>

lemma split_chunks_none: "find_str s sep = - 1 \<Longrightarrow> split_chunks s sep = [s]"
  by (subst split_chunks.simps) simp

lemma split_chunks_Nil: "sep \<noteq> [] \<Longrightarrow> split_chunks [] sep = [[]]"
  by (rule split_chunks_none) simp

lemma split_chunks_at:
  assumes "sep \<noteq> []" and "find_str s sep = int i"
  shows "split_chunks s sep = take i s # split_chunks (drop (i + length sep) s) sep"
  using assms by (subst split_chunks.simps) simp

lemma split_chunks_cut:
  assumes "sep \<noteq> []" and "find_str (e @ sep) sep = int (length e)"
  shows "split_chunks (e @ sep @ rest) sep = e # split_chunks rest sep"
proof -
  have "find_str ((e @ sep) @ rest) sep = int (length e)"
    using assms(2) by (subst find_str_append_left) simp_all
  then have "find_str (e @ sep @ rest) sep = int (length e)" by simp
  from split_chunks_at [OF assms(1) this] show ?thesis by simp
qed

lemma split_chunks_concat:
  assumes "sep \<noteq> []" and "\<forall>e\<in>set es. find_str (e @ sep) sep = int (length e)"
  shows "split_chunks (concat (map (\<lambda>e. e @ sep) es)) sep = es @ [[]]"
  using assms(2)
proof (induction es)
  case Nil
  show ?case using assms(1) by (simp add: split_chunks_Nil)
next
  case (Cons e es)
  then show ?case using assms(1) by (simp add: split_chunks_cut)
qed

lemma split_chunks_props:
  "sep \<noteq> [] \<Longrightarrow>
     split_chunks s sep \<noteq> [] \<and>
     (\<forall>c\<in>set (butlast (split_chunks s sep)). find_str (c @ sep) sep = int (length c)) \<and>
     find_str (last (split_chunks s sep)) sep = - 1"
proof (induction s sep rule: split_chunks.induct)
  case (1 s sep)
  show ?case
  proof (cases rule: find_str_cases [of s sep])
    case 1
    then show ?thesis by (simp add: split_chunks_none)
  next
    case (2 i)
    show ?thesis
    proof -
      have False: "sep \<noteq> []" by (rule "1.prems")
      from 2 have occ: "occurs_at sep s i" by (simp add: find_str_eq_iff)
      then have len: "i + length sep \<le> length s" by (simp add: occurs_at_def)
      let ?rest = "drop (i + length sep) s"
      have eq: "split_chunks s sep = take i s # split_chunks ?rest sep"
        by (rule split_chunks_at [OF False 2])
      have IH: "split_chunks ?rest sep \<noteq> [] \<and>
         (\<forall>c\<in>set (butlast (split_chunks ?rest sep)). find_str (c @ sep) sep = int (length c)) \<and>
         find_str (last (split_chunks ?rest sep)) sep = - 1"
        using "1.IH" [of "int i"] 2 False by simp
      have "find_str ((take i s @ sep) @ ?rest) sep = int i"
        using occurs_at_decomp [OF occ] 2 by simp
      then have "find_str (take i s @ sep) sep = int i"
        using len by (subst (asm) find_str_append_left) simp_all
      moreover have "length (take i s) = i" using len by simp
      ultimately have "find_str (take i s @ sep) sep = int (length (take i s))" by simp
      with IH eq show ?thesis by simp
    qed
  qed
qed



section \<open>Building a document\<close>

lemma join_str_sep:
  "es \<noteq> [] \<Longrightarrow> join_str sep es @ sep = concat (map (\<lambda>e. e @ sep) es)"
  by (induction sep es rule: join_str.induct) auto

lemma build_changelog_concat:
  "build_changelog header entries = header @ concat (map (\<lambda>e. e @ ENTRY_SEPARATOR) entries)"
  by (cases "entries = []") (simp_all add: build_changelog_def join_str_sep)

text \<open>
  C4. \<open>build_changelog\<close> returns the header unchanged, with no separator behind it,
  when there are no entries. Otherwise it returns the header, then the entries joined
  with the entry separator, then one more separator; so every entry, the last one
  included, is followed by a separator.
\<close>

theorem build_changelog_shape:
  "build_changelog header [] = header \<and>
   (entries \<noteq> [] \<longrightarrow>
      build_changelog header entries = header @ join_str ENTRY_SEPARATOR entries @ ENTRY_SEPARATOR) \<and>
   build_changelog header entries = header @ concat (map (\<lambda>e. e @ ENTRY_SEPARATOR) entries)"
  using build_changelog_concat [of header entries] by (simp add: build_changelog_def)

theorem build_changelog_shape_witness:
  "[ustr ''## a'', ustr ''## b''] \<noteq> [] \<and>
   build_changelog (ustr ''H'') [ustr ''## a'', ustr ''## b''] =
     ustr ''H## a\<newline>---\<newline>\<newline>## b\<newline>---\<newline>\<newline>''"
  using build_changelog_shape [of "ustr ''H''" "[ustr ''## a'', ustr ''## b'']"]
  by (simp add: ENTRY_SEPARATOR_eq ustr_def)

section \<open>Prepending and trimming\<close>

text \<open>
  C2. With a positive maximum \<open>N\<close>, prepending a new entry and trimming gives the first
  \<open>N\<close> elements of the prepended list. With exactly \<open>N\<close> existing entries the result has
  length \<open>N\<close>, starts with the new entry and has lost the last (oldest) of the existing
  entries; with \<open>N - 1\<close> existing entries it has length \<open>N\<close> and nothing is lost; with
  \<open>N = 1\<close> it is the list of the new entry alone.
\<close>

theorem trim_correctness:
  "0 < N \<Longrightarrow>
   prepend_and_trim N new_entry entries = take (nat N) (new_entry # entries) \<and>
   (length entries = nat N \<longrightarrow>
      length (prepend_and_trim N new_entry entries) = nat N \<and>
      hd (prepend_and_trim N new_entry entries) = new_entry \<and>
      prepend_and_trim N new_entry entries = new_entry # butlast entries) \<and>
   (length entries = nat N - 1 \<longrightarrow>
      length (prepend_and_trim N new_entry entries) = nat N \<and>
      prepend_and_trim N new_entry entries = new_entry # entries) \<and>
   (N = 1 \<longrightarrow> prepend_and_trim N new_entry entries = [new_entry])"
proof -
  assume N: "0 < N"
  then obtain n where n: "nat N = Suc n" by (cases "nat N") auto
  have eq: "prepend_and_trim N new_entry entries = new_entry # take n entries"
    using N n by (simp add: prepend_and_trim_def)
  have "length entries = Suc n \<Longrightarrow> take n entries = butlast entries"
    by (simp add: butlast_conv_take)
  moreover have "N = 1 \<Longrightarrow> n = 0" using n by simp
  ultimately show ?thesis using eq n by auto
qed

theorem trim_correctness_witness:
  "(0::int) < 2 \<and>
   prepend_and_trim 2 (ustr ''## n'') [ustr ''## a'', ustr ''## b''] = [ustr ''## n'', ustr ''## a''] \<and>
   prepend_and_trim 2 (ustr ''## n'') [ustr ''## a''] = [ustr ''## n'', ustr ''## a''] \<and>
   prepend_and_trim 1 (ustr ''## n'') [ustr ''## a'', ustr ''## b''] = [ustr ''## n'']"
  using trim_correctness [of 2 "ustr ''## n''" "[ustr ''## a'', ustr ''## b'']"]
    trim_correctness [of 2 "ustr ''## n''" "[ustr ''## a'']"]
    trim_correctness [of 1 "ustr ''## n''" "[ustr ''## a'', ustr ''## b'']"]
  by simp

text \<open>
  C6. After the update step the entry list has no more elements than the configured
  maximum when that maximum is positive; a maximum of zero or less switches trimming
  off, and every entry is kept.
\<close>

theorem bounded_size:
  "(0 < N \<longrightarrow> length (prepend_and_trim N new_entry entries) \<le> nat N) \<and>
   (N \<le> 0 \<longrightarrow> prepend_and_trim N new_entry entries = new_entry # entries)"
  by (simp add: prepend_and_trim_def)

theorem bounded_size_witness:
  "(0::int) < 2 \<and> length (prepend_and_trim 2 (ustr ''## n'') [ustr ''## a'', ustr ''## b'']) \<le> 2 \<and>
   (- 3::int) \<le> 0 \<and>
   prepend_and_trim (- 3) (ustr ''## n'') [ustr ''## a'', ustr ''## b''] =
     [ustr ''## n'', ustr ''## a'', ustr ''## b'']"
  using bounded_size [of 2 "ustr ''## n''" "[ustr ''## a'', ustr ''## b'']"]
    bounded_size [of "- 3" "ustr ''## n''" "[ustr ''## a'', ustr ''## b'']"]
  by simp

section \<open>Header and body\<close>

lemma entries_from_eq:
  "entries_from header body =
     Inr (header, filter (\<lambda>e. startswith (strip e) ENTRY_START) (split_chunks body ENTRY_SEPARATOR))"
  by (simp add: entries_from_def split_str_def ENTRY_SEPARATOR_eq)

text \<open>
  C3. When the content starts with \<open>###### tags\<close> and the marker \<open>\<newline>## \<close> occurs first at
  index \<open>i\<close>, the header is \<open>content[0 .. i+1]\<close>, the newline at \<open>i\<close> included, and the
  entries are taken from the body \<open>content[i+1 ..]\<close>. When the content starts with the
  prefix and the marker does not occur, the whole content is the header and there are
  no entries. When the content does not start with the prefix, the header is
  \<open>CHANGELOG_HEADER\<close> and the whole content is the body.
\<close>

theorem parse_changelog_split:
  "(startswith content TAGS_PREFIX \<and> occurs_at ENTRY_MARKER content i \<and>
      (\<forall>j<i. \<not> occurs_at ENTRY_MARKER content j) \<longrightarrow>
      parse_changelog content =
        Inr (take (i + 1) content,
             filter (\<lambda>e. startswith (strip e) ENTRY_START)
               (split_chunks (drop (i + 1) content) ENTRY_SEPARATOR))) \<and>
   (startswith content TAGS_PREFIX \<and> (\<forall>j. \<not> occurs_at ENTRY_MARKER content j) \<longrightarrow>
      parse_changelog content = Inr (content, [])) \<and>
   (\<not> startswith content TAGS_PREFIX \<longrightarrow>
      parse_changelog content =
        Inr (CHANGELOG_HEADER,
             filter (\<lambda>e. startswith (strip e) ENTRY_START)
               (split_chunks content ENTRY_SEPARATOR)))"
proof (intro conjI impI)
  assume a: "startswith content TAGS_PREFIX \<and> occurs_at ENTRY_MARKER content i \<and>
      (\<forall>j<i. \<not> occurs_at ENTRY_MARKER content j)"
  then have "find_str content ENTRY_MARKER = int i" by (simp add: find_str_eq_iff)
  moreover have "nat (int i + 1) = i + 1" by simp
  ultimately show "parse_changelog content =
        Inr (take (i + 1) content,
             filter (\<lambda>e. startswith (strip e) ENTRY_START)
               (split_chunks (drop (i + 1) content) ENTRY_SEPARATOR))"
    using a unfolding parse_changelog_def entries_from_eq Let_def by simp
next
  assume a: "startswith content TAGS_PREFIX \<and> (\<forall>j. \<not> occurs_at ENTRY_MARKER content j)"
  then have "find_str content ENTRY_MARKER = - 1" by (simp add: find_str_none_iff)
  with a show "parse_changelog content = Inr (content, [])"
    by (simp add: parse_changelog_def)
next
  assume "\<not> startswith content TAGS_PREFIX"
  then show "parse_changelog content =
        Inr (CHANGELOG_HEADER,
             filter (\<lambda>e. startswith (strip e) ENTRY_START)
               (split_chunks content ENTRY_SEPARATOR))"
    by (simp add: parse_changelog_def entries_from_eq)
qed

theorem parse_changelog_split_witness:
  "(startswith (ustr ''###### tags\<newline>## a'') TAGS_PREFIX \<and>
    occurs_at ENTRY_MARKER (ustr ''###### tags\<newline>## a'') 11 \<and>
    \<not> (\<exists>j<11. occurs_at ENTRY_MARKER (ustr ''###### tags\<newline>## a'') j) \<and>
    parse_changelog (ustr ''###### tags\<newline>## a'') =
      Inr (ustr ''###### tags\<newline>'', [ustr ''## a''])) \<and>
   (startswith (ustr ''###### tags: x'') TAGS_PREFIX \<and>
    \<not> (\<exists>j. occurs_at ENTRY_MARKER (ustr ''###### tags: x'') j) \<and>
    parse_changelog (ustr ''###### tags: x'') = Inr (ustr ''###### tags: x'', [])) \<and>
   (\<not> startswith (ustr ''## a'') TAGS_PREFIX \<and>
    parse_changelog (ustr ''## a'') = Inr (CHANGELOG_HEADER, [ustr ''## a'']))"
proof -
  let ?c1 = "ustr ''###### tags\<newline>## a''" and ?c2 = "ustr ''###### tags: x''"
    and ?c3 = "ustr ''## a''"
  have s1: "startswith ?c1 TAGS_PREFIX" by (simp add: ustr_def TAGS_PREFIX_eq)
  have "find_str ?c1 ENTRY_MARKER = int 11" by (simp add: ustr_def ENTRY_MARKER_eq)
  then have o1: "occurs_at ENTRY_MARKER ?c1 11 \<and> (\<forall>j<11. \<not> occurs_at ENTRY_MARKER ?c1 j)"
    using find_str_eq_iff [of ?c1 ENTRY_MARKER 11] by blast
  have s2: "startswith ?c2 TAGS_PREFIX" by (simp add: ustr_def TAGS_PREFIX_eq)
  have "find_str ?c2 ENTRY_MARKER = - 1" by (simp add: ustr_def ENTRY_MARKER_eq)
  then have o2: "\<forall>j. \<not> occurs_at ENTRY_MARKER ?c2 j"
    using find_str_none_iff [of ?c2 ENTRY_MARKER] by blast
  have s3: "\<not> startswith ?c3 TAGS_PREFIX" by (simp add: ustr_def TAGS_PREFIX_eq)
  have r1: "parse_changelog ?c1 = Inr (ustr ''###### tags\<newline>'', [ustr ''## a''])"
    using parse_changelog_split [of ?c1 11] s1 o1
    by (simp add: ustr_def ENTRY_SEPARATOR_eq ENTRY_START_eq strip_def isspace_def
        split_chunks.simps)
  have r2: "parse_changelog ?c2 = Inr (?c2, [])"
    using parse_changelog_split [of ?c2] s2 o2 by simp
  have r3: "parse_changelog ?c3 = Inr (CHANGELOG_HEADER, [?c3])"
    using parse_changelog_split [of ?c3] s3
    by (simp add: ustr_def ENTRY_SEPARATOR_eq ENTRY_START_eq strip_def isspace_def
        split_chunks.simps)
  from s1 o1 r1 s2 o2 r2 s3 r3 show ?thesis by blast
qed

section \<open>Empty input\<close>

text \<open>
  C7. Parsing the empty string gives the default header \<open>CHANGELOG_HEADER\<close> and no
  entries.
\<close>

theorem parse_changelog_empty: "parse_changelog [] = Inr (CHANGELOG_HEADER, [])"
  by (simp add: parse_changelog_def entries_from_def split_str_def TAGS_PREFIX_eq
      ENTRY_SEPARATOR_eq ENTRY_START_eq strip_def split_chunks.simps)

section \<open>Lenient parsing\<close>


section \<open>Overlaps of the separator and of the marker\<close>

lemma separator_overlap:
  assumes occ: "occurs_at ENTRY_SEPARATOR (e @ ENTRY_SEPARATOR) j"
    and j: "j < length e" and out: "length e < j + 6"
  shows "endswith e SEPARATOR_HEAD"
proof -
  define d where "d = drop j e"
  define p where "p = take j e"
  have e: "e = p @ d" by (simp add: p_def d_def)
  have lp: "length p = j" using j by (simp add: p_def)
  have ld: "0 < length d" "length d < 6" using j out by (simp_all add: d_def)
  have "drop j (e @ ENTRY_SEPARATOR) = d @ ENTRY_SEPARATOR"
    using j by (simp add: d_def)
  moreover have "take (length ENTRY_SEPARATOR) (drop j (e @ ENTRY_SEPARATOR)) = ENTRY_SEPARATOR"
    using occ unfolding occurs_at_def by blast
  ultimately have t: "take (length ENTRY_SEPARATOR) (d @ ENTRY_SEPARATOR) = ENTRY_SEPARATOR"
    by (simp only:)
  from ld have "length d = 1 \<or> length d = 2 \<or> length d = 3 \<or> length d = 4 \<or> length d = 5"
    by arith
  then have "d = [10, 45, 45, 45, 10]"
  proof (elim disjE)
    assume "length d = 1"
    then obtain a where "d = [a]" by (auto simp: length_Suc_conv)
    with t show ?thesis by (simp add: ENTRY_SEPARATOR_eq)
  next
    assume "length d = 2"
    then obtain a b where "d = [a, b]" by (auto simp: length_Suc_conv numeral_2_eq_2)
    with t show ?thesis by (simp add: ENTRY_SEPARATOR_eq)
  next
    assume "length d = 3"
    then obtain a b c where "d = [a, b, c]" by (auto simp: length_Suc_conv numeral_3_eq_3)
    with t show ?thesis by (simp add: ENTRY_SEPARATOR_eq)
  next
    assume "length d = 4"
    then have "length d = Suc (Suc (Suc (Suc 0)))" by simp
    then obtain a b c f where "d = [a, b, c, f]" by (auto simp: length_Suc_conv)
    with t show ?thesis by (simp add: ENTRY_SEPARATOR_eq)
  next
    assume "length d = 5"
    then have "length d = Suc (Suc (Suc (Suc (Suc 0))))" by simp
    then obtain a b c f g where "d = [a, b, c, f, g]" by (auto simp: length_Suc_conv)
    with t show ?thesis by (simp add: ENTRY_SEPARATOR_eq)
  qed
  with e show ?thesis by (auto simp: endswith_iff SEPARATOR_HEAD_eq)
qed

lemma separator_after_entry:
  assumes none: "find_str e ENTRY_SEPARATOR = - 1"
    and tail: "\<not> endswith e SEPARATOR_HEAD"
  shows "find_str (e @ ENTRY_SEPARATOR) ENTRY_SEPARATOR = int (length e)"
proof -
  have len: "length ENTRY_SEPARATOR = 6" by (simp add: ENTRY_SEPARATOR_eq)
  have here: "occurs_at ENTRY_SEPARATOR (e @ ENTRY_SEPARATOR) (length e)"
    by (simp add: occurs_at_def)
  have "\<not> occurs_at ENTRY_SEPARATOR (e @ ENTRY_SEPARATOR) j" if j: "j < length e" for j
  proof
    assume occ: "occurs_at ENTRY_SEPARATOR (e @ ENTRY_SEPARATOR) j"
    show False
    proof (cases "j + 6 \<le> length e")
      case True
      with occ len have "occurs_at ENTRY_SEPARATOR e j"
        by (simp add: occurs_at_append_left)
      with none show False by (simp add: find_str_none_iff)
    next
      case False
      then have "length e < j + 6" by simp
      with occ j have "endswith e SEPARATOR_HEAD" by (intro separator_overlap [of e j]) simp_all
      with tail show False by simp
    qed
  qed
  with here show ?thesis by (simp add: find_str_eq_iff)
qed

lemma marker_overlap:
  assumes occ: "occurs_at ENTRY_MARKER (q @ [10, 35, 35, 32] @ r) j"
    and j: "j < length q" and out: "length q < j + 3"
  shows False
proof -
  define d where "d = drop j q"
  define p where "p = take j q"
  have q: "q = p @ d" by (simp add: p_def d_def)
  have lp: "length p = j" using j by (simp add: p_def)
  have ld: "0 < length d" "length d < 3" using j out by (simp_all add: d_def)
  have "drop j (q @ [10, 35, 35, 32] @ r) = d @ [10, 35, 35, 32] @ r"
    using j by (simp add: d_def)
  moreover have "take (length ENTRY_MARKER) (drop j (q @ [10, 35, 35, 32] @ r)) = ENTRY_MARKER"
    using occ unfolding occurs_at_def by blast
  ultimately have t: "take (length ENTRY_MARKER) (d @ [10, 35, 35, 32] @ r) = ENTRY_MARKER"
    by (simp only:)
  from ld have "length d = 1 \<or> length d = 2" by arith
  then show False
  proof
    assume "length d = 1"
    then obtain a where "d = [a]" by (auto simp: length_Suc_conv)
    with t show False by (simp add: ENTRY_MARKER_eq)
  next
    assume "length d = 2"
    then obtain a b where "d = [a, b]" by (auto simp: length_Suc_conv numeral_2_eq_2)
    with t show False by (simp add: ENTRY_MARKER_eq)
  qed
qed

lemma marker_after_header:
  assumes none: "find_str H ENTRY_MARKER = - 1"
    and nl: "endswith H [10]"
    and st: "startswith e ENTRY_START"
  shows "\<exists>n. length H = Suc n \<and> find_str (H @ e @ rest) ENTRY_MARKER = int n"
proof -
  from nl obtain q where H: "H = q @ [10]" by (auto simp: endswith_iff)
  from st obtain r where e: "e = [35, 35, 32] @ r"
    by (auto simp: startswith_iff_append ENTRY_START_eq)
  have c: "H @ e @ rest = q @ [10, 35, 35, 32] @ r @ rest" by (simp add: H e)
  have here: "occurs_at ENTRY_MARKER (q @ [10, 35, 35, 32] @ r @ rest) (length q)"
    by (simp add: occurs_at_def ENTRY_MARKER_eq)
  have "\<not> occurs_at ENTRY_MARKER (q @ [10, 35, 35, 32] @ r @ rest) j" if j: "j < length q" for j
  proof
    assume occ: "occurs_at ENTRY_MARKER (q @ [10, 35, 35, 32] @ r @ rest) j"
    show False
    proof (cases "j + 3 \<le> length q")
      case True
      have "occurs_at ENTRY_MARKER (H @ e @ rest) j" unfolding c by (rule occ)
      moreover have "j + length ENTRY_MARKER \<le> length H" using True by (simp add: H ENTRY_MARKER_eq)
      ultimately have "occurs_at ENTRY_MARKER H j" by (simp add: occurs_at_append_left)
      with none show False by (simp add: find_str_none_iff)
    next
      case False
      with occ j show False using marker_overlap [of q "r @ rest" j] by simp
    qed
  qed
  with here have "find_str (q @ [10, 35, 35, 32] @ r @ rest) ENTRY_MARKER = int (length q)"
    by (simp add: find_str_eq_iff)
  with c H show ?thesis by simp
qed

lemma strip_keeps_start:
  assumes st: "startswith e ENTRY_START" and ns: "\<exists>c\<in>set (drop 3 e). \<not> isspace c"
  shows "startswith (strip e) ENTRY_START"
proof -
  from st obtain r where e: "e = [35, 35, 32] @ r"
    by (auto simp: startswith_iff_append ENTRY_START_eq)
  from ns e obtain c where c: "c \<in> set (rev r)" "\<not> isspace c" by auto
  have "\<not> isspace 35" by (simp add: isspace_def)
  then have "dropWhile isspace e = e" by (simp add: e)
  moreover have "dropWhile isspace (rev r @ [32, 35, 35]) = dropWhile isspace (rev r) @ [32, 35, 35]"
    using c by (rule dropWhile_append1)
  ultimately have "strip e = [35, 35, 32] @ rev (dropWhile isspace (rev r))"
    by (simp add: strip_def e)
  then show ?thesis by (simp add: ENTRY_START_eq)
qed

section \<open>Round trip\<close>

lemma empty_chunk_dropped: "\<not> startswith (strip []) ENTRY_START"
  by (simp add: strip_def ENTRY_START_eq)

lemma roundtrip_core:
  assumes tags: "startswith H TAGS_PREFIX"
    and none: "find_str H ENTRY_MARKER = - 1"
    and first: "E \<noteq> [] \<Longrightarrow> endswith H [10] \<and> startswith (hd E) ENTRY_START"
    and ents: "\<forall>e\<in>set E. startswith (strip e) ENTRY_START \<and>
                 find_str (e @ ENTRY_SEPARATOR) ENTRY_SEPARATOR = int (length e)"
  shows "parse_changelog (build_changelog H E) = Inr (H, E)"
proof (cases E)
  case Nil
  with tags none show ?thesis by (simp add: build_changelog_def parse_changelog_def)
next
  case (Cons e es)
  let ?body = "concat (map (\<lambda>e. e @ ENTRY_SEPARATOR) E)"
  have sep: "ENTRY_SEPARATOR \<noteq> []" by (simp add: ENTRY_SEPARATOR_eq)
  have b: "build_changelog H E = H @ ?body" by (rule build_changelog_concat)
  have body: "?body = e @ ENTRY_SEPARATOR @ concat (map (\<lambda>e. e @ ENTRY_SEPARATOR) es)"
    using Cons by simp
  from first Cons have nl: "endswith H [10]" and st: "startswith e ENTRY_START" by simp_all
  from marker_after_header [OF none nl st]
  obtain n where len: "length H = Suc n" and idx: "find_str (H @ ?body) ENTRY_MARKER = int n"
    unfolding body by blast
  have n: "nat (int n + 1) = length H" using len by simp
  have chunks: "split_chunks ?body ENTRY_SEPARATOR = E @ [[]]"
    using ents by (intro split_chunks_concat [OF sep]) simp
  have keep: "filter (\<lambda>e. startswith (strip e) ENTRY_START) (E @ [[]]) = E"
  proof -
    have f: "filter (\<lambda>e. startswith (strip e) ENTRY_START) E = E"
      using ents by (simp add: filter_id_conv)
    show ?thesis by (simp add: f empty_chunk_dropped)
  qed
  have "parse_changelog (H @ ?body) =
      entries_from (take (nat (int n + 1)) (H @ ?body)) (drop (nat (int n + 1)) (H @ ?body))"
    using tags idx by (simp add: parse_changelog_def startswith_append Let_def)
  also have "\<dots> = entries_from H ?body" by (simp only: n) simp
  also have "\<dots> = Inr (H, E)" by (simp only: entries_from_eq chunks keep)
  finally show ?thesis by (simp add: b)
qed

text \<open>
  C1, as the code has it. Let the header start with \<open>###### tags\<close>, hold no \<open>\<newline>## \<close>
  and, when there are entries, end with a newline. Let every entry start with \<open>## \<close>,
  hold a character other than white space behind these three, hold no entry separator
  and not end with \<open>\<newline>---\<newline>\<close>. Then parsing the built document gives the header
  and the entries back.
\<close>

theorem build_parse_roundtrip:
  assumes "startswith H TAGS_PREFIX"
    and "find_str H ENTRY_MARKER = - 1"
    and "E \<noteq> [] \<longrightarrow> endswith H [10]"
    and "\<forall>e\<in>set E. startswith e ENTRY_START \<and> (\<exists>c\<in>set (drop 3 e). \<not> isspace c) \<and>
           find_str e ENTRY_SEPARATOR = - 1 \<and> \<not> endswith e SEPARATOR_HEAD"
  shows "parse_changelog (build_changelog H E) = Inr (H, E)"
proof (rule roundtrip_core)
  show "startswith H TAGS_PREFIX" by fact
  show "find_str H ENTRY_MARKER = - 1" by fact
  show "endswith H [10] \<and> startswith (hd E) ENTRY_START" if "E \<noteq> []"
    using that assms(3,4) by (cases E) auto
  show "\<forall>e\<in>set E. startswith (strip e) ENTRY_START \<and>
          find_str (e @ ENTRY_SEPARATOR) ENTRY_SEPARATOR = int (length e)"
    using assms(4) by (auto intro: strip_keeps_start separator_after_entry)
qed

theorem build_parse_roundtrip_witness:
  "startswith CHANGELOG_HEADER TAGS_PREFIX \<and>
   find_str CHANGELOG_HEADER ENTRY_MARKER = - 1 \<and>
   endswith CHANGELOG_HEADER [10] \<and>
   parse_changelog (build_changelog CHANGELOG_HEADER [ustr ''## a'', ustr ''## b x'']) =
     Inr (CHANGELOG_HEADER, [ustr ''## a'', ustr ''## b x''])"
proof -
  have "\<forall>e\<in>set [ustr ''## a'', ustr ''## b x''].
          startswith e ENTRY_START \<and> (\<exists>c\<in>set (drop 3 e). \<not> isspace c) \<and>
          find_str e ENTRY_SEPARATOR = - 1 \<and> \<not> endswith e SEPARATOR_HEAD"
    by (simp add: ustr_def ENTRY_START_eq ENTRY_SEPARATOR_eq SEPARATOR_HEAD_eq endswith_def
        isspace_def)
  with header_facts show ?thesis
    using build_parse_roundtrip [of CHANGELOG_HEADER "[ustr ''## a'', ustr ''## b x'']"]
    by blast
qed

text \<open>
  The claim as the specification states it, for any header and any entries that start
  with \<open>## \<close> and hold no separator, fails in three ways: a header without the
  prefix is replaced by \<open>CHANGELOG_HEADER\<close> and swallows the first entry; the entry
  \<open>## \<close> is dropped, since stripping removes its blank; an entry that ends with
  \<open>\<newline>---\<newline>\<close> forms a separator with the newline that follows it and is cut short.
\<close>

theorem build_parse_roundtrip_counterexample:
  "startswith (ustr ''## a'') ENTRY_START \<and>
   find_str (ustr ''## a'') ENTRY_SEPARATOR = - 1 \<and>
   parse_changelog (build_changelog (ustr ''# Log\<newline>\<newline>'') [ustr ''## a'']) =
     Inr (CHANGELOG_HEADER, []) \<and>
   parse_changelog (build_changelog (ustr ''# Log\<newline>\<newline>'') [ustr ''## a'']) \<noteq>
     Inr (ustr ''# Log\<newline>\<newline>'', [ustr ''## a'']) \<and>
   startswith (ustr ''## '') ENTRY_START \<and>
   find_str (ustr ''## '') ENTRY_SEPARATOR = - 1 \<and>
   parse_changelog (build_changelog CHANGELOG_HEADER [ustr ''## '']) =
     Inr (CHANGELOG_HEADER, []) \<and>
   parse_changelog (build_changelog CHANGELOG_HEADER [ustr ''## '']) \<noteq>
     Inr (CHANGELOG_HEADER, [ustr ''## '']) \<and>
   startswith (ustr ''## a\<newline>---\<newline>'') ENTRY_START \<and>
   find_str (ustr ''## a\<newline>---\<newline>'') ENTRY_SEPARATOR = - 1 \<and>
   parse_changelog (build_changelog CHANGELOG_HEADER [ustr ''## a\<newline>---\<newline>'']) =
     Inr (CHANGELOG_HEADER, [ustr ''## a'']) \<and>
   parse_changelog (build_changelog CHANGELOG_HEADER [ustr ''## a\<newline>---\<newline>'']) \<noteq>
     Inr (CHANGELOG_HEADER, [ustr ''## a\<newline>---\<newline>''])"
  by (simp add: build_changelog_def parse_changelog_def entries_from_eq CHANGELOG_HEADER_def
      ustr_def eval_defs strip_def isspace_def split_chunks.simps)

section \<open>Parsing again what was parsed\<close>

lemma tags_before_marker:
  assumes tags: "startswith C TAGS_PREFIX" and occ: "occurs_at ENTRY_MARKER C i"
  shows "11 \<le> i"
proof (rule ccontr)
  assume "\<not> 11 \<le> i"
  then have i: "i < 11" by simp
  from tags obtain t where C: "C = TAGS_PREFIX @ t" by (auto simp: startswith_iff_append)
  have lenT: "length TAGS_PREFIX = 11" by (simp add: TAGS_PREFIX_eq)
  have "C ! i = TAGS_PREFIX ! i" using i by (simp add: C nth_append lenT)
  moreover have "TAGS_PREFIX ! i \<in> set TAGS_PREFIX" using i by (simp add: lenT)
  moreover have "\<forall>c\<in>set TAGS_PREFIX. c \<noteq> 10" by (simp add: TAGS_PREFIX_eq)
  ultimately have "C ! i \<noteq> 10" by simp
  moreover have "C ! i = 10"
  proof -
    from occ have l: "i < length C" and t: "take (length ENTRY_MARKER) (drop i C) = ENTRY_MARKER"
      by (simp_all add: occurs_at_def ENTRY_MARKER_eq)
    from l have "drop i C = C ! i # drop (Suc i) C" by (simp add: Cons_nth_drop_Suc)
    with t show ?thesis by (simp add: ENTRY_MARKER_eq)
  qed
  ultimately show False by simp
qed

lemma parsed_header:
  assumes "parse_changelog C = Inr (H, E)"
  shows "startswith H TAGS_PREFIX \<and> find_str H ENTRY_MARKER = - 1 \<and> (E \<noteq> [] \<longrightarrow> endswith H [10])"
proof (cases "startswith C TAGS_PREFIX")
  case False
  with assms have "H = CHANGELOG_HEADER" by (simp add: parse_changelog_def entries_from_eq)
  then show ?thesis by (simp add: header_facts)
next
  case True
  show ?thesis
  proof (cases rule: find_str_cases [of C ENTRY_MARKER])
    case 1
    with True assms have "H = C" "E = []" by (simp_all add: parse_changelog_def)
    with True 1 show ?thesis by simp
  next
    case (2 i)
    then have occ: "occurs_at ENTRY_MARKER C i" and first: "\<forall>j<i. \<not> occurs_at ENTRY_MARKER C j"
      by (simp_all add: find_str_eq_iff)
    have "nat (int i + 1) = Suc i" by simp
    with True 2 assms have H: "H = take (Suc i) C"
      by (simp add: parse_changelog_def entries_from_eq Let_def)
    from occ have len: "i + 4 \<le> length C" by (simp add: occurs_at_def ENTRY_MARKER_eq)
    have i11: "11 \<le> i" by (rule tags_before_marker [OF True occ])
    have "startswith H TAGS_PREFIX"
    proof -
      have lenT: "length TAGS_PREFIX = 11" by (simp add: TAGS_PREFIX_eq)
      from True obtain t where C: "C = TAGS_PREFIX @ t" by (auto simp: startswith_iff_append)
      have "H = TAGS_PREFIX @ take (Suc i - 11) t" using i11 by (simp add: H C lenT)
      then show ?thesis by (simp add: startswith_iff_append)
    qed
    moreover have "find_str H ENTRY_MARKER = - 1"
    proof -
      have "\<not> occurs_at ENTRY_MARKER H j" for j
      proof
        assume o: "occurs_at ENTRY_MARKER H j"
        then have j: "j + length ENTRY_MARKER \<le> length H" by (simp add: occurs_at_def)
        then have "j < i" using len by (simp add: H ENTRY_MARKER_eq)
        moreover have "occurs_at ENTRY_MARKER (H @ drop (Suc i) C) j"
          using o j by (simp add: occurs_at_append_left)
        then have "occurs_at ENTRY_MARKER C j" by (simp add: H)
        ultimately show False using first by blast
      qed
      then show ?thesis by (simp add: find_str_none_iff)
    qed
    moreover have "endswith H [10]"
    proof -
      from occ have l: "i < length C" and t: "take (length ENTRY_MARKER) (drop i C) = ENTRY_MARKER"
        by (simp_all add: occurs_at_def ENTRY_MARKER_eq)
      from l have "drop i C = C ! i # drop (Suc i) C" by (simp add: Cons_nth_drop_Suc)
      with t have "C ! i = 10" by (simp add: ENTRY_MARKER_eq)
      with l have "H = take i C @ [10]" by (simp add: H take_Suc_conv_app_nth)
      then show ?thesis by (auto simp: endswith_iff)
    qed
    ultimately show ?thesis by simp
  qed
qed

lemma parsed_entries:
  assumes "parse_changelog C = Inr (H, E)"
  shows "E = [] \<or> (\<exists>body. E = filter (\<lambda>e. startswith (strip e) ENTRY_START)
                                   (split_chunks body ENTRY_SEPARATOR))"
  using assms
  by (auto simp: parse_changelog_def entries_from_eq Let_def split: if_splits)

lemma filtered_chunks:
  assumes E: "E = filter (\<lambda>e. startswith (strip e) ENTRY_START) (split_chunks body ENTRY_SEPARATOR)"
    and tail: "E \<noteq> [] \<longrightarrow> \<not> endswith (last E) SEPARATOR_HEAD"
  shows "\<forall>e\<in>set E. startswith (strip e) ENTRY_START \<and>
           find_str (e @ ENTRY_SEPARATOR) ENTRY_SEPARATOR = int (length e)"
proof -
  let ?q = "\<lambda>e. startswith (strip e) ENTRY_START"
  let ?cs = "split_chunks body ENTRY_SEPARATOR"
  have sep: "ENTRY_SEPARATOR \<noteq> []" by (simp add: ENTRY_SEPARATOR_eq)
  from split_chunks_props [OF sep, of body]
  have ne: "?cs \<noteq> []"
    and inner: "\<forall>c\<in>set (butlast ?cs). find_str (c @ ENTRY_SEPARATOR) ENTRY_SEPARATOR = int (length c)"
    and lst: "find_str (last ?cs) ENTRY_SEPARATOR = - 1"
    by blast+
  from ne have cs: "?cs = butlast ?cs @ [last ?cs]" by simp
  have Eeq: "E = filter ?q (butlast ?cs) @ filter ?q [last ?cs]"
    by (subst E, subst cs, simp only: filter_append)
  have "find_str (e @ ENTRY_SEPARATOR) ENTRY_SEPARATOR = int (length e)" if e: "e \<in> set E" for e
  proof (cases "?q (last ?cs)")
    case False
    with Eeq e have "e \<in> set (butlast ?cs)" by auto
    with inner show ?thesis by blast
  next
    case True
    with Eeq have "E \<noteq> []" and "last E = last ?cs" by simp_all
    with tail have "\<not> endswith (last ?cs) SEPARATOR_HEAD" by simp
    with lst have l: "find_str (last ?cs @ ENTRY_SEPARATOR) ENTRY_SEPARATOR = int (length (last ?cs))"
      by (rule separator_after_entry)
    from Eeq e True have "e \<in> set (butlast ?cs) \<or> e = last ?cs" by auto
    with inner l show ?thesis by blast
  qed
  moreover have "\<forall>e\<in>set E. ?q e" by (subst E) simp
  ultimately show ?thesis by blast
qed

text \<open>
  C10, as the code has it. When \<open>parse_changelog\<close> gives header \<open>H\<close> and entries
  \<open>E\<close>, and \<open>E\<close> is empty or its first entry starts with \<open>## \<close> and its last entry
  does not end with \<open>\<newline>---\<newline>\<close>, then building and parsing again gives \<open>H\<close> and \<open>E\<close>
  once more.
\<close>

theorem reparse_stable:
  assumes parsed: "parse_changelog C = Inr (H, E)"
    and shape: "E \<noteq> [] \<longrightarrow> startswith (hd E) ENTRY_START \<and> \<not> endswith (last E) SEPARATOR_HEAD"
  shows "parse_changelog (build_changelog H E) = Inr (H, E)"
proof (rule roundtrip_core)
  from parsed_header [OF parsed]
  show "startswith H TAGS_PREFIX" and "find_str H ENTRY_MARKER = - 1" by blast+
  show "endswith H [10] \<and> startswith (hd E) ENTRY_START" if "E \<noteq> []"
    using that parsed_header [OF parsed] shape by blast
  show "\<forall>e\<in>set E. startswith (strip e) ENTRY_START \<and>
          find_str (e @ ENTRY_SEPARATOR) ENTRY_SEPARATOR = int (length e)"
  proof (cases "E = []")
    case True
    then show ?thesis by simp
  next
    case False
    with parsed_entries [OF parsed] obtain body
      where "E = filter (\<lambda>e. startswith (strip e) ENTRY_START) (split_chunks body ENTRY_SEPARATOR)"
      by blast
    then show ?thesis using shape by (intro filtered_chunks [of E body]) blast+
  qed
qed

theorem reparse_stable_witness:
  "parse_changelog (ustr ''###### tags\<newline>\<newline>## a\<newline>---\<newline>\<newline>## b'') =
     Inr (ustr ''###### tags\<newline>\<newline>'', [ustr ''## a'', ustr ''## b'']) \<and>
   startswith (hd [ustr ''## a'', ustr ''## b'']) ENTRY_START \<and>
   \<not> endswith (last [ustr ''## a'', ustr ''## b'']) SEPARATOR_HEAD \<and>
   parse_changelog (build_changelog (ustr ''###### tags\<newline>\<newline>'') [ustr ''## a'', ustr ''## b'']) =
     Inr (ustr ''###### tags\<newline>\<newline>'', [ustr ''## a'', ustr ''## b''])"
proof -
  let ?C = "ustr ''###### tags\<newline>\<newline>## a\<newline>---\<newline>\<newline>## b''"
  let ?H = "ustr ''###### tags\<newline>\<newline>''"
  let ?E = "[ustr ''## a'', ustr ''## b'']"
  have p: "parse_changelog ?C = Inr (?H, ?E)"
    by (simp add: parse_changelog_def entries_from_eq ustr_def eval_defs strip_def isspace_def
        split_chunks.simps)
  have s: "startswith (hd ?E) ENTRY_START" by (simp add: ustr_def eval_defs)
  have e: "\<not> endswith (last ?E) SEPARATOR_HEAD"
    by (simp add: ustr_def SEPARATOR_HEAD_eq endswith_def)
  from p s e reparse_stable [of ?C ?H ?E] show ?thesis by blast
qed

text \<open>
  Without these conditions the claim fails. A first chunk with a blank in front of
  \<open>## \<close> is kept as it stands, and in the rebuilt document the marker \<open>\<newline>## \<close> is not
  found, so all of it becomes the header. A document whose last newline is missing gives
  a last entry that ends with \<open>\<newline>---\<newline>\<close>, which the rebuilt document cuts off.
\<close>

theorem reparse_stable_counterexample:
  "parse_changelog (ustr '' ## a'') = Inr (CHANGELOG_HEADER, [ustr '' ## a'']) \<and>
   parse_changelog (build_changelog CHANGELOG_HEADER [ustr '' ## a'']) \<noteq>
     Inr (CHANGELOG_HEADER, [ustr '' ## a'']) \<and>
   parse_changelog (CHANGELOG_HEADER @ ustr ''## a\<newline>---\<newline>\<newline>## b\<newline>---\<newline>'') =
     Inr (CHANGELOG_HEADER, [ustr ''## a'', ustr ''## b\<newline>---\<newline>'']) \<and>
   parse_changelog (build_changelog CHANGELOG_HEADER [ustr ''## a'', ustr ''## b\<newline>---\<newline>'']) =
     Inr (CHANGELOG_HEADER, [ustr ''## a'', ustr ''## b'']) \<and>
   parse_changelog (build_changelog CHANGELOG_HEADER [ustr ''## a'', ustr ''## b\<newline>---\<newline>'']) \<noteq>
     Inr (CHANGELOG_HEADER, [ustr ''## a'', ustr ''## b\<newline>---\<newline>''])"
  by (simp add: build_changelog_def parse_changelog_def entries_from_eq CHANGELOG_HEADER_def
      ustr_def eval_defs strip_def isspace_def split_chunks.simps)

section \<open>The longest match is a match\<close>

text \<open>
  \<open>sound_b2j\<close>: every index that \<open>b2j\<close> lists for an element holds that element.
  \<open>rowinv\<close> and \<open>bestinv\<close> are the invariants of the main loop of
  \<open>find_longest_match\<close> after the rows below \<open>e\<close>: every entry of \<open>j2len\<close> and the best
  block lie within the region and, where the flag \<open>m\<close> is set, are runs of equal elements.
  With the flag off they bound the block, which the termination of \<open>match_queue\<close> needs
  for any \<open>b2j\<close>.
\<close>

definition sound_b2j :: "'a list \<Rightarrow> ('a \<rightharpoonup> nat list) \<Rightarrow> bool" where
  "sound_b2j b b2j \<longleftrightarrow> (\<forall>x js. b2j x = Some js \<longrightarrow> (\<forall>j\<in>set js. b ! j = x))"

definition rowinv ::
  "bool \<Rightarrow> 'a list \<Rightarrow> 'a list \<Rightarrow> nat \<Rightarrow> nat \<Rightarrow> nat \<Rightarrow> nat \<Rightarrow> (nat \<rightharpoonup> nat) \<Rightarrow> bool" where
  "rowinv m a b alo blo bhi e j2len \<longleftrightarrow>
     (\<forall>j k. j2len j = Some k \<longrightarrow>
        0 < k \<and> alo + k \<le> e \<and> blo + k \<le> j + 1 \<and> j < bhi \<and>
        (m \<longrightarrow> (\<forall>t<k. a ! (e - k + t) = b ! (j + 1 - k + t))))"

definition bestinv ::
  "bool \<Rightarrow> 'a list \<Rightarrow> 'a list \<Rightarrow> nat \<Rightarrow> nat \<Rightarrow> nat \<Rightarrow> nat \<Rightarrow> match \<Rightarrow> bool" where
  "bestinv m a b alo ahi blo bhi best \<longleftrightarrow>
     (case best of (bi, bj, bs) \<Rightarrow>
        alo \<le> bi \<and> blo \<le> bj \<and> (bs = 0 \<longrightarrow> bi = alo \<and> bj = blo) \<and>
        (0 < bs \<or> (alo \<le> ahi \<and> blo \<le> bhi) \<longrightarrow> bi + bs \<le> ahi \<and> bj + bs \<le> bhi) \<and>
        (m \<longrightarrow> (\<forall>t<bs. a ! (bi + t) = b ! (bj + t))))"

lemma rowinv_empty: "rowinv m a b alo blo bhi e Map.empty"
  by (simp add: rowinv_def)

lemma inner_step:
  assumes prev: "rowinv m a b alo blo bhi i j2len"
    and i: "alo \<le> i" "i < ahi" and j: "blo \<le> j" "j < bhi"
    and eq: "m \<longrightarrow> b ! j = a ! i"
    and k: "k = (if j = 0 then 0 else (case j2len (j - 1) of None \<Rightarrow> 0 | Some v \<Rightarrow> v)) + 1"
  shows "0 < k \<and> alo + k \<le> i + 1 \<and> blo + k \<le> j + 1 \<and>
         (m \<longrightarrow> (\<forall>t<k. a ! (i + 1 - k + t) = b ! (j + 1 - k + t)))"
proof (cases "j = 0 \<or> j2len (j - 1) = None")
  case True
  then have "k = 1" using k by auto
  with i j eq show ?thesis by simp
next
  case False
  then obtain v where v: "j2len (j - 1) = Some v" and j0: "j \<noteq> 0" by auto
  with k have kv: "k = v + 1" by simp
  from prev v have p: "0 < v" "alo + v \<le> i" "blo + v \<le> j - 1 + 1"
    "m \<longrightarrow> (\<forall>t<v. a ! (i - v + t) = b ! (j - 1 + 1 - v + t))"
    unfolding rowinv_def by blast+
  from j0 have j1: "j - 1 + 1 = j" by simp
  have "a ! (i + 1 - k + t) = b ! (j + 1 - k + t)" if m: m and t: "t < k" for t
  proof (cases "t < v")
    case True
    with p(4) m have "a ! (i - v + t) = b ! (j - 1 + 1 - v + t)" by blast
    then have "a ! (i - v + t) = b ! (j - v + t)" by (simp only: j1)
    then show ?thesis by (simp add: kv)
  next
    case False
    with t kv have tv: "t = v" by simp
    from p(3) j0 have vj: "v \<le> j" by simp
    have "i + 1 - k + t = i" using p(2) by (simp add: kv tv)
    moreover have "j + 1 - k + t = j" using vj by (simp add: kv tv)
    ultimately show ?thesis using eq m by simp
  qed
  with p kv j1 show ?thesis by simp
qed

lemma inner_loop_inv:
  assumes prev: "rowinv m a b alo blo bhi i j2len"
    and i: "alo \<le> i" "i < ahi"
    and eq: "m \<longrightarrow> (\<forall>j\<in>set js. b ! j = a ! i)"
    and new: "rowinv m a b alo blo bhi (i + 1) newj2len"
    and best: "bestinv m a b alo ahi blo bhi best"
  shows "rowinv m a b alo blo bhi (i + 1) (fst (inner_loop i blo bhi j2len js (newj2len, best))) \<and>
         bestinv m a b alo ahi blo bhi (snd (inner_loop i blo bhi j2len js (newj2len, best)))"
  using eq new best
proof (induction js arbitrary: newj2len best)
  case Nil
  then show ?case by simp
next
  case (Cons j js)
  obtain bi bj bs where b: "best = (bi, bj, bs)" by (cases best)
  from Cons.prems(1) have eqs: "m \<longrightarrow> (\<forall>j\<in>set js. b ! j = a ! i)" and eqj: "m \<longrightarrow> b ! j = a ! i"
    by simp_all
  show ?case
  proof (cases "j < blo")
    case True
    with Cons.IH [OF eqs Cons.prems(2,3)] show ?thesis by (simp add: b)
  next
    case lo: False
    show ?thesis
    proof (cases "j \<ge> bhi")
      case True
      with lo Cons.prems show ?thesis by (simp add: b)
    next
      case hi: False
      define k where "k = (if j = 0 then 0 else (case j2len (j - 1) of None \<Rightarrow> 0 | Some v \<Rightarrow> v)) + 1"
      from lo hi have j: "blo \<le> j" "j < bhi" by simp_all
      from inner_step [OF prev i j eqj k_def]
      have st: "0 < k" "alo + k \<le> i + 1" "blo + k \<le> j + 1"
        "m \<longrightarrow> (\<forall>t<k. a ! (i + 1 - k + t) = b ! (j + 1 - k + t))" by blast+
      have new': "rowinv m a b alo blo bhi (i + 1) (newj2len(j \<mapsto> k))"
        using Cons.prems(2) st j unfolding rowinv_def by auto
      have best': "bestinv m a b alo ahi blo bhi
          (if k > bs then (i + 1 - k, j + 1 - k, k) else (bi, bj, bs))"
        using Cons.prems(3) st i j unfolding bestinv_def b by auto
      have step: "inner_loop i blo bhi j2len (j # js) (newj2len, (bi, bj, bs)) =
          inner_loop i blo bhi j2len js
            (newj2len(j \<mapsto> k), if k > bs then (i + 1 - k, j + 1 - k, k) else (bi, bj, bs))"
        using lo hi by (simp add: k_def Let_def)
      show ?thesis unfolding b step by (rule Cons.IH [OF eqs new' best'])
    qed
  qed
qed

lemma outer_loop_inv:
  assumes snd: "m \<longrightarrow> sound_b2j b b2j"
  shows "is = [i0..<ahi] \<Longrightarrow> alo \<le> i0 \<Longrightarrow> rowinv m a b alo blo bhi i0 j2len \<Longrightarrow>
         bestinv m a b alo ahi blo bhi best \<Longrightarrow>
         bestinv m a b alo ahi blo bhi (snd (outer_loop a b2j blo bhi is (j2len, best)))"
proof (induction "is" arbitrary: i0 j2len best)
  case Nil
  then show ?case by simp
next
  case (Cons i "is")
  from Cons.prems(1) [symmetric] have i: "i = i0" "i0 < ahi" and rest: "is = [i0 + 1..<ahi]"
    by (auto simp: upt_eq_Cons_conv)
  let ?js = "case b2j (a ! i) of None \<Rightarrow> [] | Some js \<Rightarrow> js"
  have eq: "m \<longrightarrow> (\<forall>j\<in>set ?js. b ! j = a ! i)"
  proof (cases "b2j (a ! i)")
    case None
    then show ?thesis by simp
  next
    case (Some js)
    with snd show ?thesis unfolding sound_b2j_def by auto
  qed
  let ?st = "inner_loop i blo bhi j2len ?js (Map.empty, best)"
  have p: "rowinv m a b alo blo bhi i j2len" "alo \<le> i" "i < ahi"
    using Cons.prems(2,3) i by simp_all
  from inner_loop_inv [OF p eq rowinv_empty Cons.prems(4)] i
  have "rowinv m a b alo blo bhi (i0 + 1) (fst ?st)" "bestinv m a b alo ahi blo bhi (snd ?st)"
    by simp_all
  from Cons.IH [OF rest _ this] Cons.prems(2)
  have "bestinv m a b alo ahi blo bhi (snd (outer_loop a b2j blo bhi is (fst ?st, snd ?st)))"
    by simp
  then show ?case by simp
qed

lemma extend_left_inv:
  "bestinv m a b alo ahi blo bhi best \<Longrightarrow>
   bestinv m a b alo ahi blo bhi (extend_left a b alo blo ok best)"
proof (induction a b alo blo ok best rule: extend_left.induct)
  case (1 a b alo blo ok besti bestj bestsize)
  show ?case
  proof (cases "besti > alo \<and> bestj > blo \<and> ok (b ! (bestj - 1)) \<and> a ! (besti - 1) = b ! (bestj - 1)")
    case False
    with "1.prems" show ?thesis by (subst extend_left.simps) (simp only: if_False)
  next
    case True
    have "bestinv m a b alo ahi blo bhi (besti - 1, bestj - 1, bestsize + 1)"
      using True "1.prems" unfolding bestinv_def
      by (auto simp: less_Suc_eq_0_disj)
    from "1.IH" [OF True this] True show ?thesis by (subst extend_left.simps) simp
  qed
qed

lemma extend_right_inv:
  "bestinv m a b alo ahi blo bhi best \<Longrightarrow>
   bestinv m a b alo ahi blo bhi (extend_right a b ahi bhi ok best)"
proof (induction a b ahi bhi ok best rule: extend_right.induct)
  case (1 a b ahi bhi ok besti bestj bestsize)
  show ?case
  proof (cases "besti + bestsize < ahi \<and> bestj + bestsize < bhi \<and> ok (b ! (bestj + bestsize)) \<and>
         a ! (besti + bestsize) = b ! (bestj + bestsize)")
    case False
    with "1.prems" show ?thesis by (subst extend_right.simps) (simp only: if_False)
  next
    case True
    have "bestinv m a b alo ahi blo bhi (besti, bestj, bestsize + 1)"
      using True "1.prems" unfolding bestinv_def by (auto simp: less_Suc_eq)
    from "1.IH" [OF True this] True show ?thesis by (subst extend_right.simps) simp
  qed
qed

lemma find_longest_match_inv:
  assumes "m \<longrightarrow> sound_b2j b b2j"
  shows "bestinv m a b alo ahi blo bhi (find_longest_match a b b2j alo ahi blo bhi)"
proof -
  have "bestinv m a b alo ahi blo bhi (alo, blo, 0)" by (simp add: bestinv_def)
  from outer_loop_inv [OF assms refl _ rowinv_empty this, of alo]
  have "bestinv m a b alo ahi blo bhi
          (snd (outer_loop a b2j blo bhi [alo..<ahi] (Map.empty, (alo, blo, 0))))" by simp
  then show ?thesis
    unfolding find_longest_match_def Let_def
    by (intro extend_left_inv extend_right_inv)
qed

lemma find_longest_match_range:
  assumes "find_longest_match a b b2j alo ahi blo bhi = (i, j, k)" and "k \<noteq> 0"
  shows "alo \<le> i \<and> i + k \<le> ahi \<and> blo \<le> j \<and> j + k \<le> bhi"
  using find_longest_match_inv [of False b b2j a alo ahi blo bhi] assms
  by (simp add: bestinv_def)

termination match_queue
proof (relation "measure (\<lambda>(a, b, b2j, queue, blocks).
          sum_list (map (\<lambda>(alo, ahi, blo, bhi). 2 * (ahi - alo) + 1) queue))", goal_cases)
  case 1
  show ?case by simp
next
  case (2 a b b2j alo ahi blo bhi queue matching_blocks i y j k)
  then have f: "find_longest_match a b b2j alo ahi blo bhi = (i, j, k)" and k: "k \<noteq> 0"
    by simp_all
  from find_longest_match_range [OF f k] k show ?case by auto
next
  case 3
  then show ?case by simp
qed

declare match_queue.simps [simp del]

section \<open>The index of the second sequence\<close>

definition indices_of :: "'a list \<Rightarrow> 'a \<Rightarrow> nat list" where
  "indices_of b x = filter (\<lambda>j. b ! j = x) [0..<length b]"

lemma indices_of_snoc:
  "indices_of (b @ [e]) x = indices_of b x @ (if e = x then [length b] else [])"
proof -
  have "filter (\<lambda>j. (b @ [e]) ! j = x) [0..<length b] = filter (\<lambda>j. b ! j = x) [0..<length b]"
    by (rule filter_cong) (simp_all add: nth_append)
  then show ?thesis by (simp add: indices_of_def)
qed

lemma indices_of_empty_iff: "indices_of b x = [] \<longleftrightarrow> x \<notin> set b"
  by (auto simp: indices_of_def filter_empty_conv in_set_conv_nth)

lemma set_indices_of: "set (indices_of b x) = {j. j < length b \<and> b ! j = x}"
  by (auto simp: indices_of_def)

lemma sorted_indices_of: "sorted_wrt (<) (indices_of b x)"
  unfolding indices_of_def by (rule sorted_wrt_filter) (simp add: sorted_wrt_upt)

lemma b2j_fold:
  "fold (\<lambda>(i, elt) b2j. b2j(elt \<mapsto> (case b2j elt of None \<Rightarrow> [] | Some indices \<Rightarrow> indices) @ [i]))
     (enumerate 0 b) Map.empty x =
   (if x \<in> set b then Some (indices_of b x) else None)"
proof (induction b rule: rev_induct)
  case Nil
  show ?case by simp
next
  case (snoc e b)
  have "indices_of b e = []" if "e \<notin> set b" using that by (simp add: indices_of_empty_iff)
  with snoc show ?case
    by (auto simp: enumerate_append_eq indices_of_snoc)
qed

lemma chain_b_eq:
  "chain_b b x =
     (if x \<in> set b \<and> \<not> (200 \<le> length b \<and> length (indices_of b x) > length b div 100 + 1)
      then Some (indices_of b x) else None)"
  unfolding chain_b_def Let_def by (simp add: b2j_fold)

lemma sound_chain_b: "sound_b2j b (chain_b b)"
  by (auto simp: sound_b2j_def chain_b_eq set_indices_of split: if_splits)

section \<open>The longest match of a sequence with itself\<close>

text \<open>
  \<open>drun K a e\<close> is the length of the run of elements that satisfy \<open>K\<close> and end just
  below index \<open>e\<close>.
\<close>

fun drun :: "('a \<Rightarrow> bool) \<Rightarrow> 'a list \<Rightarrow> nat \<Rightarrow> nat" where
  "drun K a 0 = 0"
| "drun K a (Suc e) = (if K (a ! e) then drun K a e + 1 else 0)"

lemma drun_ge: "k \<le> e \<Longrightarrow> (\<forall>t<k. K (a ! (e - k + t))) \<Longrightarrow> k \<le> drun K a e"
proof (induction e arbitrary: k)
  case 0
  then show ?case by simp
next
  case (Suc e)
  show ?case
  proof (cases k)
    case 0
    then show ?thesis by simp
  next
    case (Suc k')
    from Suc.prems(2) have "K (a ! (Suc e - k + k'))" unfolding Suc by blast
    moreover have "Suc e - k + k' = e" using Suc.prems(1) Suc by simp
    ultimately have Ke: "K (a ! e)" by simp
    have "\<forall>t<k'. K (a ! (e - k' + t))"
    proof (intro allI impI)
      fix t assume "t < k'"
      then have "K (a ! (Suc e - k + t))" using Suc.prems(2) Suc by simp
      moreover have "Suc e - k + t = e - k' + t" using Suc by simp
      ultimately show "K (a ! (e - k' + t))" by simp
    qed
    moreover have "k' \<le> e" using Suc.prems(1) Suc by simp
    ultimately have "k' \<le> drun K a e" by (rule Suc.IH [rotated])
    with Ke Suc show ?thesis by simp
  qed
qed

text \<open>
  The invariant of the main loop on identical sequences, after the rows below \<open>e\<close>:
  every entry of \<open>j2len\<close> is a run of equal elements that are keys of \<open>b2j\<close>; the entry
  on the diagonal is the whole run of keys that ends there; the best block lies on the
  diagonal and is at least as long as every such run.
\<close>

definition rowd :: "('a \<Rightarrow> bool) \<Rightarrow> 'a list \<Rightarrow> nat \<Rightarrow> (nat \<rightharpoonup> nat) \<Rightarrow> bool" where
  "rowd K a e j2len \<longleftrightarrow>
     (\<forall>j k. j2len j = Some k \<longrightarrow>
        0 < k \<and> k \<le> e \<and> k \<le> j + 1 \<and> j < length a \<and>
        (\<forall>t<k. K (a ! (j + 1 - k + t)) \<and> a ! (e - k + t) = a ! (j + 1 - k + t)))"

definition diagd :: "('a \<Rightarrow> bool) \<Rightarrow> 'a list \<Rightarrow> nat \<Rightarrow> (nat \<rightharpoonup> nat) \<Rightarrow> bool" where
  "diagd K a e j2len \<longleftrightarrow>
     (0 < e \<longrightarrow> j2len (e - 1) = (if drun K a e = 0 then None else Some (drun K a e)))"

definition bestd :: "('a \<Rightarrow> bool) \<Rightarrow> 'a list \<Rightarrow> nat \<Rightarrow> match \<Rightarrow> bool" where
  "bestd K a e best \<longleftrightarrow>
     (case best of (bi, bj, bs) \<Rightarrow> bi = bj \<and> (\<forall>x\<le>e. drun K a x \<le> bs))"

lemma rowd_empty: "rowd K a e Map.empty"
  by (simp add: rowd_def)

lemma rowd_update:
  assumes old: "rowd K a e m"
    and new: "0 < k \<and> k \<le> e \<and> k \<le> j + 1 \<and> j < length a \<and>
        (\<forall>t<k. K (a ! (j + 1 - k + t)) \<and> a ! (e - k + t) = a ! (j + 1 - k + t))"
  shows "rowd K a e (m(j \<mapsto> k))"
  unfolding rowd_def
proof (intro allI impI)
  fix j' k' assume a: "(m(j \<mapsto> k)) j' = Some k'"
  show "0 < k' \<and> k' \<le> e \<and> k' \<le> j' + 1 \<and> j' < length a \<and>
        (\<forall>t<k'. K (a ! (j' + 1 - k' + t)) \<and> a ! (e - k' + t) = a ! (j' + 1 - k' + t))"
  proof (cases "j' = j")
    case True
    with a have "k' = k" by simp
    with True new show ?thesis by blast
  next
    case False
    with a have "m j' = Some k'" by simp
    with old show ?thesis unfolding rowd_def by blast
  qed
qed

lemma inner_step_d:
  assumes prev: "rowd K a i j2len"
    and i: "i < length a" and j: "j < length a"
    and eq: "a ! j = a ! i" and K: "K (a ! i)"
    and k: "k = (if j = 0 then 0 else (case j2len (j - 1) of None \<Rightarrow> 0 | Some v \<Rightarrow> v)) + 1"
  shows "0 < k \<and> k \<le> i + 1 \<and> k \<le> j + 1 \<and>
         (\<forall>t<k. K (a ! (j + 1 - k + t)) \<and> a ! (i + 1 - k + t) = a ! (j + 1 - k + t))"
proof (cases "j = 0 \<or> j2len (j - 1) = None")
  case True
  then have "k = 1" using k by auto
  with eq K show ?thesis by simp
next
  case False
  then obtain v where v: "j2len (j - 1) = Some v" and j0: "j \<noteq> 0" by auto
  with k have kv: "k = v + 1" by simp
  from prev v have p: "0 < v" "v \<le> i" "v \<le> j - 1 + 1"
    "\<forall>t<v. K (a ! (j - 1 + 1 - v + t)) \<and> a ! (i - v + t) = a ! (j - 1 + 1 - v + t)"
    unfolding rowd_def by blast+
  from j0 have j1: "j - 1 + 1 = j" by simp
  from p(3) j1 have vj: "v \<le> j" by simp
  have "K (a ! (j + 1 - k + t)) \<and> a ! (i + 1 - k + t) = a ! (j + 1 - k + t)" if t: "t < k" for t
  proof (cases "t < v")
    case True
    with p(4) have "K (a ! (j - 1 + 1 - v + t)) \<and> a ! (i - v + t) = a ! (j - 1 + 1 - v + t)" by blast
    then have "K (a ! (j - v + t)) \<and> a ! (i - v + t) = a ! (j - v + t)" by (simp only: j1)
    then show ?thesis by (simp add: kv)
  next
    case False
    with t kv have tv: "t = v" by simp
    have "i + 1 - k + t = i" using p(2) by (simp add: kv tv)
    moreover have "j + 1 - k + t = j" using vj by (simp add: kv tv)
    ultimately show ?thesis using eq K by simp
  qed
  with p kv vj show ?thesis by simp
qed

lemma inner_loop_d:
  assumes prev: "rowd K a i j2len" and dg: "diagd K a i j2len"
    and i: "i < length a" and K: "K (a ! i)"
  shows "sorted_wrt (<) js \<Longrightarrow> \<forall>j\<in>set js. j < length a \<and> a ! j = a ! i \<Longrightarrow>
         rowd K a (i + 1) newj2len \<Longrightarrow> bestd K a i best \<Longrightarrow>
         i \<in> set js \<or> (newj2len i = Some (drun K a (i + 1)) \<and> drun K a (i + 1) \<le> snd (snd best)) \<Longrightarrow>
         rowd K a (i + 1) (fst (inner_loop i 0 (length a) j2len js (newj2len, best))) \<and>
         diagd K a (i + 1) (fst (inner_loop i 0 (length a) j2len js (newj2len, best))) \<and>
         bestd K a (i + 1) (snd (inner_loop i 0 (length a) j2len js (newj2len, best)))"
proof (induction js arbitrary: newj2len best)
  case Nil
  obtain bi bj bs where b: "best = (bi, bj, bs)" by (cases best)
  from Nil.prems(5) have d: "newj2len i = Some (drun K a (i + 1))" "drun K a (i + 1) \<le> bs"
    by (simp_all add: b)
  have "0 < drun K a (i + 1)" using K by simp
  with d have "diagd K a (i + 1) newj2len" by (simp add: diagd_def)
  moreover have "bestd K a (i + 1) best"
    using Nil.prems(4) d(2) unfolding bestd_def b by (auto simp: le_Suc_eq)
  ultimately show ?case using Nil.prems(3) by simp
next
  case (Cons j js)
  obtain bi bj bs where b: "best = (bi, bj, bs)" by (cases best)
  from Cons.prems(1) have srt: "sorted_wrt (<) js" and low: "\<forall>x\<in>set js. j < x" by simp_all
  from Cons.prems(2) have js: "\<forall>j\<in>set js. j < length a \<and> a ! j = a ! i"
    and j: "j < length a" and eq: "a ! j = a ! i" by simp_all
  from Cons.prems(4) have diag: "bi = bj" and big: "\<forall>x\<le>i. drun K a x \<le> bs"
    unfolding bestd_def b by simp_all
  define k where "k = (if j = 0 then 0 else (case j2len (j - 1) of None \<Rightarrow> 0 | Some v \<Rightarrow> v)) + 1"
  from inner_step_d [OF prev i j eq K k_def]
  have st: "0 < k" "k \<le> i + 1" "k \<le> j + 1"
    "\<forall>t<k. K (a ! (j + 1 - k + t)) \<and> a ! (i + 1 - k + t) = a ! (j + 1 - k + t)" by blast+
  have kj: "k \<le> drun K a (j + 1)" using st(3,4) by (intro drun_ge) simp_all
  have ki: "k \<le> drun K a (i + 1)" using st(2,4) by (intro drun_ge) simp_all
  have di: "drun K a (i + 1) = drun K a i + 1" using K by simp
  have keq: "k = drun K a (i + 1)" if "j = i"
  proof (cases "i = 0")
    case True
    with that K show ?thesis by (simp add: k_def)
  next
    case False
    with dg have "j2len (i - 1) = (if drun K a i = 0 then None else Some (drun K a i))"
      by (simp add: diagd_def)
    with that False K show ?thesis by (simp add: k_def)
  qed
  have upd: "bs < k \<Longrightarrow> j = i"
  proof (rule ccontr)
    assume bk: "bs < k" and ne: "j \<noteq> i"
    show False
    proof (cases "j < i")
      case True
      then have "j + 1 \<le> i" by simp
      with big have "drun K a (j + 1) \<le> bs" by blast
      with kj bk show False by simp
    next
      case False
      with ne have gt: "i < j" by simp
      with low have "i \<notin> set (j # js)" by auto
      with Cons.prems(5) have "drun K a (i + 1) \<le> bs" by (simp add: b)
      with ki bk show False by simp
    qed
  qed
  let ?best' = "if k > bs then (i + 1 - k, j + 1 - k, k) else (bi, bj, bs)"
  have new': "rowd K a (i + 1) (newj2len(j \<mapsto> k))"
    using Cons.prems(3) st j by (intro rowd_update) simp_all
  have best': "bestd K a i ?best'"
    using diag big upd unfolding bestd_def by (auto intro: le_trans less_imp_le)
  have P': "i \<in> set js \<or> ((newj2len(j \<mapsto> k)) i = Some (drun K a (i + 1)) \<and>
              drun K a (i + 1) \<le> snd (snd ?best'))"
  proof (cases "j = i")
    case True
    with keq show ?thesis by auto
  next
    case False
    with Cons.prems(5) show ?thesis by (auto simp: b)
  qed
  have step: "inner_loop i 0 (length a) j2len (j # js) (newj2len, (bi, bj, bs)) =
      inner_loop i 0 (length a) j2len js (newj2len(j \<mapsto> k), ?best')"
    using j by (simp add: k_def Let_def)
  show ?case unfolding b step by (rule Cons.IH [OF srt js new' best' P'])
qed

lemma outer_loop_d:
  assumes K: "K = (\<lambda>x. chain_b a x \<noteq> None)"
  shows "is = [e..<length a] \<Longrightarrow> rowd K a e j2len \<Longrightarrow> diagd K a e j2len \<Longrightarrow>
         bestd K a e best \<Longrightarrow>
         bestd K a (length a) (snd (outer_loop a (chain_b a) 0 (length a) is (j2len, best)))"
proof (induction "is" arbitrary: e j2len best)
  case Nil
  from Nil.prems(1) [symmetric] have "length a \<le> e" by auto
  with Nil.prems(4) show ?case unfolding bestd_def by (auto split: prod.splits)
next
  case (Cons i "is")
  from Cons.prems(1) [symmetric] have i: "i = e" "e < length a" and rest: "is = [e + 1..<length a]"
    by (auto simp: upt_eq_Cons_conv)
  let ?js = "case chain_b a (a ! i) of None \<Rightarrow> [] | Some js \<Rightarrow> js"
  let ?st = "inner_loop i 0 (length a) j2len ?js (Map.empty, best)"
  have "rowd K a (i + 1) (fst ?st) \<and> diagd K a (i + 1) (fst ?st) \<and> bestd K a (i + 1) (snd ?st)"
  proof (cases "K (a ! i)")
    case True
    then have js: "?js = indices_of a (a ! i)" by (auto simp: K chain_b_eq split: if_splits)
    have p: "rowd K a i j2len" "diagd K a i j2len" "i < length a" "bestd K a i best"
      using Cons.prems i by simp_all
    have "i \<in> set (indices_of a (a ! i))" using i by (simp add: set_indices_of)
    then show ?thesis unfolding js
      by (intro inner_loop_d [OF p(1,2,3) True sorted_indices_of _ rowd_empty p(4)])
        (simp_all add: set_indices_of)
  next
    case False
    then have js: "?js = []" by (simp add: K)
    have "diagd K a (i + 1) Map.empty" using False by (simp add: diagd_def)
    moreover have "bestd K a (i + 1) best"
      using Cons.prems(4) False i unfolding bestd_def by (auto simp: le_Suc_eq split: prod.splits)
    ultimately show ?thesis unfolding js by (simp add: rowd_empty)
  qed
  then have "rowd K a (e + 1) (fst ?st)" "diagd K a (e + 1) (fst ?st)" "bestd K a (e + 1) (snd ?st)"
    using i by simp_all
  from Cons.IH [OF rest this]
  have "bestd K a (length a) (snd (outer_loop a (chain_b a) 0 (length a) is (fst ?st, snd ?st)))" .
  then show ?case by simp
qed

lemma extend_left_same:
  "alo \<le> d \<Longrightarrow> extend_left a a alo alo (\<lambda>x. True) (d, d, s) = (alo, alo, s + (d - alo))"
proof (induction "d - alo" arbitrary: d s)
  case 0
  then have "d = alo" by simp
  then show ?case by (subst extend_left.simps) simp
next
  case (Suc n)
  then have d: "alo < d" and n: "n = (d - 1) - alo" and le: "alo \<le> d - 1" by simp_all
  from Suc.hyps(1) [OF n le, of "s + 1"] d show ?case
    by (subst extend_left.simps) simp
qed

lemma extend_right_same:
  "i + s \<le> n \<Longrightarrow> extend_right a a n n (\<lambda>x. True) (i, i, s) = (i, i, n - i)"
proof (induction "n - (i + s)" arbitrary: s)
  case 0
  then have "i + s = n" by simp
  then show ?case by (subst extend_right.simps) auto
next
  case (Suc m)
  then have lt: "i + s < n" and m: "m = n - (i + (s + 1))" and le: "i + (s + 1) \<le> n" by simp_all
  from Suc.hyps(1) [OF m le] lt show ?case
    by (subst extend_right.simps) simp
qed

lemma extend_left_never: "extend_left a b alo blo (\<lambda>x. False) best = best"
  by (cases best) (simp add: extend_left.simps)

lemma extend_right_never: "extend_right a b ahi bhi (\<lambda>x. False) best = best"
  by (cases best) (simp add: extend_right.simps)

lemma find_longest_match_same:
  "find_longest_match a a (chain_b a) 0 (length a) 0 (length a) = (0, 0, length a)"
proof -
  define K where "K = (\<lambda>x. chain_b a x \<noteq> None)"
  let ?best = "snd (outer_loop a (chain_b a) 0 (length a) [0..<length a] (Map.empty, (0, 0, 0)))"
  have "bestd K a 0 (0, 0, 0)" by (simp add: bestd_def)
  moreover have "diagd K a 0 Map.empty" by (simp add: diagd_def)
  ultimately have d: "bestd K a (length a) ?best"
    by (intro outer_loop_d [OF K_def refl rowd_empty])
  have "bestinv False a a 0 (length a) 0 (length a) (0, 0, 0)" by (simp add: bestinv_def)
  then have r: "bestinv False a a 0 (length a) 0 (length a) ?best"
    by (intro outer_loop_inv [OF _ refl _ rowinv_empty]) simp_all
  obtain bi bj bs where b: "?best = (bi, bj, bs)" by (cases ?best)
  from d b have bj: "bj = bi" by (simp add: bestd_def)
  from r b have le: "bi + bs \<le> length a" by (simp add: bestinv_def)
  have "find_longest_match a a (chain_b a) 0 (length a) 0 (length a) =
      extend_right a a (length a) (length a) (\<lambda>x. True)
        (extend_left a a 0 0 (\<lambda>x. True) (bi, bi, bs))"
    unfolding find_longest_match_def Let_def b bj
    by (simp add: extend_left_never extend_right_never)
  also have "\<dots> = (0, 0, length a)"
    using le by (simp add: extend_left_same extend_right_same)
  finally show ?thesis .
qed

section \<open>Opcodes and groups\<close>

subsection \<open>Identical sequences\<close>

lemma get_matching_blocks_same:
  "get_matching_blocks a a =
     (if a = [] then [(0, 0, 0)] else [(0, 0, length a), (length a, length a, 0)])"
  by (simp add: get_matching_blocks_def match_queue.simps find_longest_match_same Let_def)

lemma get_opcodes_same:
  "get_opcodes a a = (if a = [] then [] else [(Equal, 0, length a, 0, length a)])"
  by (simp add: get_opcodes_def get_matching_blocks_same)

lemma get_grouped_opcodes_same: "get_grouped_opcodes a a n = []"
proof (cases "a = []")
  case True
  then show ?thesis
    by (simp add: get_grouped_opcodes_def get_opcodes_same fix_first_def fix_last_def)
next
  case False
  let ?la = "length a"
  have "\<not> n + n < min ?la (?la - n + n) - (?la - n)" by arith
  with False show ?thesis
    by (simp add: get_grouped_opcodes_def get_opcodes_same fix_first_def fix_last_def)
qed

subsection \<open>Blocks are matches\<close>

definition valid_block :: "'a list \<Rightarrow> 'a list \<Rightarrow> match \<Rightarrow> bool" where
  "valid_block a b blk \<longleftrightarrow>
     (case blk of (i, j, k) \<Rightarrow>
        0 < k \<and> i + k \<le> length a \<and> j + k \<le> length b \<and> (\<forall>t<k. a ! (i + t) = b ! (j + t)))"

lemma match_queue_valid:
  "sound_b2j b b2j \<Longrightarrow>
   \<forall>(alo, ahi, blo, bhi)\<in>set queue. ahi \<le> length a \<and> bhi \<le> length b \<Longrightarrow>
   \<forall>blk\<in>set blocks. valid_block a b blk \<Longrightarrow>
   \<forall>blk\<in>set (match_queue a b b2j queue blocks). valid_block a b blk"
proof (induction a b b2j queue blocks rule: match_queue.induct)
  case (1 a b b2j matching_blocks)
  then show ?case by (simp add: match_queue.simps)
next
  case (2 a b b2j alo ahi blo bhi queue matching_blocks)
  note snd = "2.prems"(1)
  obtain i j k where f: "find_longest_match a b b2j alo ahi blo bhi = (i, j, k)"
    by (cases "find_longest_match a b b2j alo ahi blo bhi")
  from "2.prems"(2) have hi: "ahi \<le> length a" "bhi \<le> length b"
    and q: "\<forall>(alo, ahi, blo, bhi)\<in>set queue. ahi \<le> length a \<and> bhi \<le> length b" by simp_all
  show ?case
  proof (cases "k = 0")
    case True
    with "2.IH"(2) [OF f [symmetric] refl _ snd q "2.prems"(3)] f show ?thesis
      by (simp add: match_queue.simps)
  next
    case False
    from find_longest_match_inv [of True b b2j a alo ahi blo bhi] snd f False
    have v: "alo \<le> i" "blo \<le> j" "i + k \<le> ahi" "j + k \<le> bhi" "\<forall>t<k. a ! (i + t) = b ! (j + t)"
      by (simp_all add: bestinv_def)
    let ?q = "(if i + k < ahi \<and> j + k < bhi then [(i + k, ahi, j + k, bhi)] else []) @
               (if alo < i \<and> blo < j then [(alo, i, blo, j)] else []) @ queue"
    have q': "\<forall>(alo, ahi, blo, bhi)\<in>set ?q. ahi \<le> length a \<and> bhi \<le> length b"
      using q hi v by auto
    have b': "\<forall>blk\<in>set (matching_blocks @ [(i, j, k)]). valid_block a b blk"
      using "2.prems"(3) v hi False by (auto simp: valid_block_def)
    from "2.IH"(1) [OF f [symmetric] refl False snd q' b'] f False show ?thesis
      by (simp add: match_queue.simps)
  qed
qed

lemma collapse_valid:
  "k1 = 0 \<or> valid_block a b (i1, j1, k1) \<Longrightarrow>
   \<forall>blk\<in>set non_adjacent. valid_block a b blk \<Longrightarrow>
   \<forall>blk\<in>set blocks. valid_block a b blk \<Longrightarrow>
   (case collapse (i1, j1, k1) non_adjacent blocks of
      ((i, j, k), res) \<Rightarrow> (k = 0 \<or> valid_block a b (i, j, k)) \<and> (\<forall>blk\<in>set res. valid_block a b blk))"
proof (induction "(i1, j1, k1)" non_adjacent blocks arbitrary: i1 j1 k1 rule: collapse.induct)
  case (1 i1 j1 k1 non_adjacent)
  then show ?case by simp
next
  case (2 i1 j1 k1 non_adjacent i2 j2 k2 matching_blocks)
  from "2.prems"(3) have v2: "valid_block a b (i2, j2, k2)"
    and rest: "\<forall>blk\<in>set matching_blocks. valid_block a b blk" by simp_all
  show ?case
  proof (cases "i1 + k1 = i2 \<and> j1 + k1 = j2")
    case True
    have "valid_block a b (i1, j1, k1 + k2)"
      unfolding valid_block_def
    proof (clarsimp, intro conjI allI impI)
      from v2 show "0 < k1 \<or> 0 < k2" by (simp add: valid_block_def)
      from v2 True show "i1 + (k1 + k2) \<le> length a" "j1 + (k1 + k2) \<le> length b"
        by (simp_all add: valid_block_def add.assoc)
      fix t assume t: "t < k1 + k2"
      show "a ! (i1 + t) = b ! (j1 + t)"
      proof (cases "t < k1")
        case True
        with "2.prems"(1) show ?thesis by (auto simp: valid_block_def)
      next
        case False
        define u where "u = t - k1"
        with False t have u: "t = k1 + u" "u < k2" by simp_all
        with v2 have "a ! (i2 + u) = b ! (j2 + u)" by (simp add: valid_block_def)
        moreover from \<open>i1 + k1 = i2 \<and> j1 + k1 = j2\<close> u
        have "i1 + t = i2 + u" "j1 + t = j2 + u" by simp_all
        ultimately show ?thesis by simp
      qed
    qed
    moreover have "collapse (i1, j1, k1) non_adjacent ((i2, j2, k2) # matching_blocks) =
        collapse (i1, j1, k1 + k2) non_adjacent matching_blocks"
      using True by simp
    ultimately show ?thesis using "2.hyps"(1) [OF True _ "2.prems"(2) rest] by simp
  next
    case False
    have "\<forall>blk\<in>set (if k1 \<noteq> 0 then non_adjacent @ [(i1, j1, k1)] else non_adjacent). valid_block a b blk"
      using "2.prems"(1,2) by auto
    moreover have "collapse (i1, j1, k1) non_adjacent ((i2, j2, k2) # matching_blocks) =
        collapse (i2, j2, k2)
          (if k1 \<noteq> 0 then non_adjacent @ [(i1, j1, k1)] else non_adjacent) matching_blocks"
      by (simp only: collapse.simps False if_False)
    ultimately show ?thesis using "2.hyps"(2) [OF False _ _ rest] v2 by simp
  qed
qed

lemma get_matching_blocks_valid:
  "\<exists>blocks. get_matching_blocks a b = blocks @ [(length a, length b, 0)] \<and>
            (\<forall>blk\<in>set blocks. valid_block a b blk)"
proof -
  let ?found = "match_queue a b (chain_b b) [(0, length a, 0, length b)] []"
  have "\<forall>blk\<in>set ?found. valid_block a b blk"
    by (rule match_queue_valid [OF sound_chain_b]) simp_all
  then have s: "\<forall>blk\<in>set (sort ?found). valid_block a b blk" by simp
  obtain blk res where "collapse (0, 0, 0) [] (sort ?found) = (blk, res)"
    by (cases "collapse (0, 0, 0) [] (sort ?found)")
  moreover obtain i j k where "blk = (i, j, k)" by (cases blk)
  ultimately have c: "collapse (0, 0, 0) [] (sort ?found) = ((i, j, k), res)" by simp
  from collapse_valid [of 0 a b 0 0 "[]" "sort ?found"] s c
  have "k = 0 \<or> valid_block a b (i, j, k)" "\<forall>blk\<in>set res. valid_block a b blk" by simp_all
  then have "\<forall>blk\<in>set ((if k \<noteq> 0 then res @ [(i, j, k)] else res)). valid_block a b blk" by auto
  then show ?thesis unfolding get_matching_blocks_def Let_def c by auto
qed

subsection \<open>No group means no difference\<close>

lemma group_loop_empty:
  "group_loop n codes grp = [] \<Longrightarrow>
   grp @ codes = [] \<or> (length (grp @ codes) = 1 \<and> fst (hd (grp @ codes)) = Equal)"
proof (induction n codes grp rule: group_loop.induct)
  case (1 n grp)
  then show ?case by (auto split: if_splits)
next
  case (2 n tag i1 i2 j1 j2 codes grp)
  then show ?case by (auto split: if_splits)
qed

lemma fix_first_shape: "codes \<noteq> [] \<Longrightarrow> map fst (fix_first n codes) = map fst codes"
  by (cases codes) (auto simp: fix_first_def split: prod.splits)

lemma fix_last_shape: "codes \<noteq> [] \<Longrightarrow> map fst (fix_last n codes) = map fst codes"
proof -
  assume ne: "codes \<noteq> []"
  then have c: "codes = butlast codes @ [last codes]" by simp
  obtain tag i1 i2 j1 j2 where l: "last codes = (tag, i1, i2, j1, j2)" by (metis prod_cases5)
  have "map fst codes = map fst (butlast codes) @ [tag]" by (subst c) (simp add: l)
  then show ?thesis by (simp add: fix_last_def l)
qed

lemma grouped_empty_tags:
  assumes "get_grouped_opcodes a b n = []"
  shows "map fst (get_opcodes a b) = [] \<or> map fst (get_opcodes a b) = [Equal]"
proof -
  define c0 where "c0 = (if get_opcodes a b = [] then [(Equal, 0, 1, 0, 1)] else get_opcodes a b)"
  define c1 where "c1 = fix_first n c0"
  define c where "c = fix_last n c1"
  have ne: "c0 \<noteq> []" by (simp add: c0_def)
  have t1: "map fst c1 = map fst c0" unfolding c1_def by (rule fix_first_shape [OF ne])
  have ne1: "c1 \<noteq> []"
  proof
    assume "c1 = []"
    with t1 have "map fst c0 = []" by simp
    with ne show False by simp
  qed
  have tags: "map fst c = map fst c0" unfolding c_def using fix_last_shape [OF ne1] t1 by simp
  from assms have "group_loop n c [] = []"
    by (simp add: get_grouped_opcodes_def Let_def c_def c1_def c0_def)
  from group_loop_empty [OF this] have "c = [] \<or> (length c = 1 \<and> fst (hd c) = Equal)" by simp
  then have "map fst c = [] \<or> map fst c = [Equal]"
    by (cases c) auto
  with tags ne have "map fst c0 = [Equal]" by simp
  then show ?thesis by (auto simp: c0_def split: if_splits)
qed

lemma opcodes_from_length:
  "length (filter (\<lambda>(i, j, k). k \<noteq> 0) blocks) \<le> length (opcodes_from i j blocks)"
  by (induction i j blocks rule: opcodes_from.induct) auto

lemma no_opcode_same:
  assumes valid: "\<forall>blk\<in>set blocks. valid_block a b blk"
    and tags: "map fst (opcodes_from 0 0 (blocks @ [(length a, length b, 0)])) = [] \<or>
               map fst (opcodes_from 0 0 (blocks @ [(length a, length b, 0)])) = [Equal]"
  shows "a = b"
proof -
  let ?ops = "opcodes_from 0 0 (blocks @ [(length a, length b, 0)])"
  have "filter (\<lambda>(i, j, k). k \<noteq> 0) blocks = blocks"
    using valid by (auto simp: filter_id_conv valid_block_def)
  then have "length blocks \<le> length ?ops"
    using opcodes_from_length [of "blocks @ [(length a, length b, 0)]" 0 0] by simp
  moreover from tags have "length (map fst ?ops) \<le> 1" by auto
  ultimately have len: "length blocks \<le> 1" by simp
  show ?thesis
  proof (cases blocks)
    case Nil
    with tags have "length a = 0 \<and> length b = 0" by (auto split: if_splits)
    then show ?thesis by simp
  next
    case (Cons blk rest)
    with len have rest: "rest = []" by simp
    obtain i j k where blk: "blk = (i, j, k)" by (cases blk)
    from valid Cons blk have v: "0 < k" "i + k \<le> length a" "j + k \<le> length b"
      "\<forall>t<k. a ! (i + t) = b ! (j + t)" by (simp_all add: valid_block_def)
    from tags v(1) have "i = 0 \<and> j = 0 \<and> length a \<le> i + k \<and> length b \<le> j + k"
      unfolding Cons rest blk by (auto split: if_splits)
    with v have "length a = k" "length b = k" "\<forall>t<k. a ! t = b ! t" by simp_all
    then show ?thesis by (intro nth_equalityI) simp_all
  qed
qed

lemma grouped_empty_iff: "get_grouped_opcodes a b n = [] \<longleftrightarrow> a = b"
proof
  assume e: "get_grouped_opcodes a b n = []"
  obtain blocks where blocks: "get_matching_blocks a b = blocks @ [(length a, length b, 0)]"
    "\<forall>blk\<in>set blocks. valid_block a b blk"
    using get_matching_blocks_valid [of a b] by blast
  from grouped_empty_tags [OF e] show "a = b"
    unfolding get_opcodes_def blocks(1) by (rule no_opcode_same [OF blocks(2)])
next
  assume "a = b"
  then show "get_grouped_opcodes a b n = []" by (simp add: get_grouped_opcodes_same)
qed

section \<open>The diff of two texts\<close>

lemma concat_splitlines: "concat (splitlines s) = s"
proof (induction s rule: splitlines.induct)
  case 1
  show ?case by simp
next
  case (2 c)
  show ?case by simp
next
  case (3 c d cs)
  show ?case
  proof (cases "c = 13 \<and> d = 10")
    case True
    with 3 show ?thesis by simp
  next
    case False
    show ?thesis
    proof (cases "is_linebreak c")
      case True
      with False 3 show ?thesis by simp
    next
      case nb: False
      with False 3 have IH: "concat (splitlines (d # cs)) = d # cs" by simp
      show ?thesis
      proof (cases "splitlines (d # cs)")
        case Nil
        with IH show ?thesis by simp
      next
        case (Cons line lines)
        with IH have "line @ concat lines = d # cs" by simp
        with False nb Cons show ?thesis by auto
      qed
    qed
  qed
qed

lemma splitlines_inj: "splitlines old = splitlines new \<Longrightarrow> old = new"
  by (metis concat_splitlines)

lemma group_loop_nonempty: "grp \<noteq> [] \<or> codes \<noteq> [] \<Longrightarrow> [] \<notin> set (group_loop n codes grp)"
  by (induction n codes grp rule: group_loop.induct) auto

lemma unified_diff_empty_iff: "unified_diff a b fromfile tofile n lineterm = [] \<longleftrightarrow> a = b"
proof (cases "get_grouped_opcodes a b n = []")
  case True
  then have "a = b" by (simp add: grouped_empty_iff)
  moreover from True have "unified_diff a b fromfile tofile n lineterm = []"
    by (simp add: unified_diff_def)
  ultimately show ?thesis by simp
next
  case False
  then have "a \<noteq> b" by (simp add: grouped_empty_iff)
  moreover from False have "unified_diff a b fromfile tofile n lineterm \<noteq> []"
    by (simp add: unified_diff_def Let_def)
  ultimately show ?thesis by simp
qed

lemma build_diff_markdown_empty_iff: "build_diff_markdown old new title = [] \<longleftrightarrow> old = new"
proof -
  have "unified_diff (splitlines old) (splitlines new) FROMFILE TOFILE 3 [] = [] \<longleftrightarrow> old = new"
    using splitlines_inj by (auto simp: unified_diff_empty_iff)
  then show ?thesis by (auto simp: build_diff_markdown_def Let_def ustr_def)
qed

text \<open>
  C8. \<open>build_diff_markdown(X, X, title)\<close> is the empty string for every string \<open>X\<close>,
  the empty one included, and every title.
\<close>

theorem build_diff_markdown_noop: "build_diff_markdown X X title = []"
  by (simp add: build_diff_markdown_def Let_def unified_diff_empty_iff)

text \<open>
  C9. For strings \<open>old\<close> and \<open>new\<close> that differ, and every title,
  \<open>build_diff_markdown(old, new, title)\<close> is not empty and begins with the line
  \<open>### \<close> followed by the title. So the empty string is returned exactly when
  \<open>old == new\<close>.
\<close>

theorem build_diff_markdown_change:
  "(old \<noteq> new \<longrightarrow>
      build_diff_markdown old new title \<noteq> [] \<and>
      startswith (build_diff_markdown old new title) (ustr ''### '' @ title @ ustr ''\<newline>'')) \<and>
   (build_diff_markdown old new title = [] \<longleftrightarrow> old = new)"
proof -
  have "startswith (build_diff_markdown old new title) (ustr ''### '' @ title @ ustr ''\<newline>'')"
    if "old \<noteq> new"
  proof -
    from that have "unified_diff (splitlines old) (splitlines new) FROMFILE TOFILE 3 [] \<noteq> []"
      using splitlines_inj by (auto simp: unified_diff_empty_iff)
    then show ?thesis
      by (simp add: build_diff_markdown_def Let_def startswith_iff_append ustr_def)
  qed
  then show ?thesis by (simp add: build_diff_markdown_empty_iff)
qed

theorem build_diff_markdown_change_witness:
  "ustr ''a\<newline>b\<newline>'' \<noteq> ustr ''a\<newline>c\<newline>'' \<and>
   build_diff_markdown (ustr ''a\<newline>b\<newline>'') (ustr ''a\<newline>c\<newline>'') (ustr ''T'') \<noteq> [] \<and>
   startswith (build_diff_markdown (ustr ''a\<newline>b\<newline>'') (ustr ''a\<newline>c\<newline>'') (ustr ''T''))
     (ustr ''### T\<newline>'')"
  using build_diff_markdown_change [of "ustr ''a\<newline>b\<newline>''" "ustr ''a\<newline>c\<newline>''" "ustr ''T''"]
  by (simp add: ustr_def)

section \<open>A diff worked out\<close>

text \<open>
  The embedding run on \<open>old = "a\<newline>b\<newline>"\<close>, \<open>new = "a\<newline>c\<newline>"\<close> and the title \<open>T\<close>: the
  result holds the heading, the line \<open>-b\<close> and the line \<open>+c\<close>.
\<close>

lemma example_lines:
  "splitlines (ustr ''a\<newline>b\<newline>'') = [[97, 10], [98, 10]]"
  "splitlines (ustr ''a\<newline>c\<newline>'') = [[97, 10], [99, 10]]"
  by (simp_all add: ustr_def is_linebreak_def)

lemma example_chain_b:
  "chain_b [[97, 10], [99, 10::nat]] = [[97, 10] \<mapsto> [0], [99, 10] \<mapsto> [Suc 0]]"
  by (simp add: chain_b_def enumerate_eq_zip upt_rec)

lemma example_longest:
  "find_longest_match [[97, 10], [98, 10]] [[97, 10], [99, 10::nat]]
     [[97, 10] \<mapsto> [0], [99, 10] \<mapsto> [Suc 0]] 0 (Suc (Suc 0)) 0 (Suc (Suc 0)) = (0, 0, 1)"
  "find_longest_match [[97, 10], [98, 10]] [[97, 10], [99, 10::nat]]
     [[97, 10] \<mapsto> [0], [99, 10] \<mapsto> [Suc 0]] (Suc 0) (Suc (Suc 0)) (Suc 0) (Suc (Suc 0)) =
     (1, 1, 0)"
  by (simp_all add: find_longest_match_def upt_rec extend_left.simps extend_right.simps)

lemma example_blocks:
  "get_matching_blocks [[97, 10], [98, 10]] [[97, 10], [99, 10::nat]] = [(0, 0, 1), (2, 2, 0)]"
  by (simp add: get_matching_blocks_def example_chain_b match_queue.simps example_longest)

lemma example_groups:
  "get_grouped_opcodes [[97, 10], [98, 10]] [[97, 10], [99, 10::nat]] 3 =
     [[(Equal, 0, 1, 0, 1), (Replace, 1, 2, 1, 2)]]"
  by (simp add: get_grouped_opcodes_def get_opcodes_def example_blocks fix_first_def fix_last_def)

lemma example_diff:
  "build_diff_markdown (ustr ''a\<newline>b\<newline>'') (ustr ''a\<newline>c\<newline>'') (ustr ''T'') =
     ustr ''### T\<newline>\<newline>```diff\<newline>--- '' @ FROMFILE @ ustr ''+++ '' @ TOFILE @
     ustr ''@@ -1,2 +1,2 @@ a\<newline>-b\<newline>+c\<newline>\<newline>```\<newline>''"
  by (simp add: build_diff_markdown_def example_lines unified_diff_def example_groups
      format_range_unified_def str_int_def decimal.simps group_lines_def slice_def)
    (simp add: ustr_def)

end
